theory Spec2Isabelle
  imports Complex_Main "HOL-Library.Monad_Syntax" "HOL-Library.Multiset"
begin

section \<open>JavaScript strings and the regular expressions of the extractors\<close>

text \<open>
  A JavaScript string is a sequence of UTF-16 code units. The patterns of
  \<^verbatim>\<open>src/App.jsx\<close> carry no \<^verbatim>\<open>u\<close> flag, so the matcher works code unit by code
  unit; a code unit is modelled as its number.
\<close>

type_synonym jsstring = "nat list"

definition js :: "string \<Rightarrow> jsstring" where
  "js = map of_char"

text \<open>The character classes the three patterns use: \<^verbatim>\<open>\d\<close>, \<^verbatim>\<open>[A-Z]\<close>, \<^verbatim>\<open>\s\<close>, the
  literal \<^verbatim>\<open>-\<close>, and \<^verbatim>\<open>\w\<close> (through \<^verbatim>\<open>\b\<close>).\<close>

definition is_digit :: "nat \<Rightarrow> bool" where
  "is_digit c = (48 \<le> c \<and> c \<le> 57)"

definition is_upper :: "nat \<Rightarrow> bool" where
  "is_upper c = (65 \<le> c \<and> c \<le> 90)"

definition is_space :: "nat \<Rightarrow> bool" where
  \<comment> \<open>ECMAScript WhiteSpace and LineTerminator: TAB, LF, VT, FF, CR, SP, NBSP, U+1680,
      U+2000..U+200A, U+2028, U+2029, U+202F, U+205F, U+3000, U+FEFF\<close>
  "is_space c = ((9 \<le> c \<and> c \<le> 13) \<or> c = 32 \<or> c = 160 \<or> c = 5760
      \<or> (8192 \<le> c \<and> c \<le> 8202) \<or> c = 8232 \<or> c = 8233 \<or> c = 8239 \<or> c = 8287
      \<or> c = 12288 \<or> c = 65279)"

definition is_word :: "nat \<Rightarrow> bool" where
  \<comment> \<open>\<^verbatim>\<open>\w\<close> is \<^verbatim>\<open>[A-Za-z0-9_]\<close>\<close>
  "is_word c = (is_digit c \<or> is_upper c \<or> (97 \<le> c \<and> c \<le> 122) \<or> c = 95)"

datatype cls = Digit | Upper | Space | Dash

fun in_cls :: "cls \<Rightarrow> nat \<Rightarrow> bool" where
  "in_cls Digit c = is_digit c"
| "in_cls Upper c = is_upper c"
| "in_cls Space c = is_space c"
| "in_cls Dash c = (c = 45)"

text \<open>
  The fragment of the pattern language the source uses: one character of a class, the
  assertion \<^verbatim>\<open>\b\<close>, concatenation, a greedy repetition of a class (\<^verbatim>\<open>+\<close>, \<^verbatim>\<open>*\<close>,
  \<^verbatim>\<open>{1,3}\<close>), a greedy optional group \<^verbatim>\<open>(?:r)?\<close> and a capturing group.
\<close>

datatype regex =
    Chr cls
  | Bound
  | Cat regex regex
  | Repeat cls nat "nat option"
  | Maybe regex
  | Capture nat regex

abbreviation Plus :: "cls \<Rightarrow> regex" where
  "Plus c \<equiv> Repeat c 1 None"

abbreviation Star :: "cls \<Rightarrow> regex" where
  "Star c \<equiv> Repeat c 0 None"

type_synonym captures = "nat \<rightharpoonup> jsstring"

type_synonym mstate = "nat \<times> captures"

definition word_boundary :: "jsstring \<Rightarrow> nat \<Rightarrow> bool" where
  "word_boundary s i =
     ((0 < i \<and> i \<le> length s \<and> is_word (s ! (i - 1))) \<noteq> (i < length s \<and> is_word (s ! i)))"

text \<open>
  The backtracking matcher: from a position and the captures so far, every way the
  pattern can match, as the list of end states in the order in which backtracking tries
  them. A greedy repetition tries the longest run first; a greedy optional group tries
  the group before skipping it. The match an engine reports is the head of the list.
\<close>

fun rmatch :: "regex \<Rightarrow> jsstring \<Rightarrow> mstate \<Rightarrow> mstate list" where
  "rmatch (Chr c) s (i, g) = (if i < length s \<and> in_cls c (s ! i) then [(Suc i, g)] else [])"
| "rmatch Bound s (i, g) = (if word_boundary s i then [(i, g)] else [])"
| "rmatch (Cat a b) s st = concat (map (rmatch b s) (rmatch a s st))"
| "rmatch (Repeat c lo hi) s (i, g) =
     (let n = length (takeWhile (in_cls c) (drop i s));
          m = (case hi of None \<Rightarrow> n | Some h \<Rightarrow> min h n)
      in map (\<lambda>k. (i + k, g)) (rev [lo ..< Suc m]))"
| "rmatch (Maybe r) s st = rmatch r s st @ [st]"
| "rmatch (Capture k r) s (i, g) =
     map (\<lambda>(j, g'). (j, g'(k \<mapsto> take (j - i) (drop i s)))) (rmatch r s (i, g))"

text \<open>
  \<^verbatim>\<open>pattern.exec(text)\<close> of a pattern with the \<^verbatim>\<open>g\<close> flag: the search starts at
  \<^verbatim>\<open>lastIndex\<close> and tries each start position up to the end of the text; a match sets
  \<^verbatim>\<open>lastIndex\<close> to its end. The result is the end of the match with its captures, or
  \<open>None\<close> for \<^verbatim>\<open>null\<close>.
\<close>

fun first_match :: "regex \<Rightarrow> jsstring \<Rightarrow> nat list \<Rightarrow> mstate option" where
  "first_match r s [] = None"
| "first_match r s (i # is) =
     (case rmatch r s (i, Map.empty) of [] \<Rightarrow> first_match r s is | m # _ \<Rightarrow> Some m)"

definition exec :: "regex \<Rightarrow> jsstring \<Rightarrow> nat \<Rightarrow> mstate option" where
  "exec r s lastIndex = first_match r s [lastIndex ..< Suc (length s)]"

text \<open>
  The loop \<^verbatim>\<open>while ((match = pattern.exec(text)) !== null) data.push(...)\<close>. An empty
  match would leave \<^verbatim>\<open>lastIndex\<close> where it is and the loop would never end, so the loop
  is a partial function: \<open>None\<close> is "does not return".
\<close>

partial_function (option) exec_loop ::
  "regex \<Rightarrow> (captures \<Rightarrow> 'a) \<Rightarrow> jsstring \<Rightarrow> nat \<Rightarrow> 'a list \<Rightarrow> 'a list option" where
  "exec_loop r mk s lastIndex data =
     (case exec r s lastIndex of
        None \<Rightarrow> Some data
      | Some (e, g) \<Rightarrow> exec_loop r mk s e (data @ [mk g]))"

declare exec_loop.simps [code]

text \<open>
  \<^verbatim>\<open>match[k]\<close>. A group that took no part in the match reads as \<^verbatim>\<open>undefined\<close>; the three
  groups of each pattern lie on every path through it, so the default is never used
  (lemmas \<open>page1_pattern_groups\<close>, \<open>page2_pattern_groups\<close> and
  \<open>page2_pattern_ws_groups\<close> below).
\<close>

definition match_group :: "captures \<Rightarrow> nat \<Rightarrow> jsstring" where
  "match_group g k = (case g k of Some t \<Rightarrow> t | None \<Rightarrow> [])"

subsection \<open>Numbers\<close>

text \<open>
  A JavaScript number is a double. The numbers of this program are the integer-valued
  doubles, the two infinities and NaN: quantities are parsed from runs of digits,
  added, doubled, halved and rounded, and subtracted. A finite number is modelled as
  the integer it is; the two zeros are one number, as they are for \<^verbatim>\<open>!==\<close>.
\<close>

datatype jsnum = Fin int | PosInf | NegInf | NaN

text \<open>
  Rounding an integer to the nearest double, a tie going to the even significand: the
  number is cut down to 53 significant bits, and from \<open>2\<^sup>1\<^sup>0\<^sup>2\<^sup>4\<close> on the result
  is an infinity.
\<close>

function excess_bits :: "nat \<Rightarrow> nat" where
  "excess_bits n = (if n < 2 ^ 53 then 0 else Suc (excess_bits (n div 2)))"
  by pat_completeness auto
termination
  by (relation "measure (\<lambda>n. n)") auto

declare excess_bits.simps [simp del]

definition round_to_53 :: "nat \<Rightarrow> nat" where
  "round_to_53 n =
     (let e = excess_bits n; q = n div 2 ^ e; r = n mod 2 ^ e;
          q' = (if 2 * r < 2 ^ e then q
                else if 2 ^ e < 2 * r then q + 1
                else if even q then q else q + 1)
      in q' * 2 ^ e)"

definition to_double :: "int \<Rightarrow> jsnum" where
  "to_double x =
     (let n = round_to_53 (nat \<bar>x\<bar>)
      in if 2 ^ 1024 \<le> n then (if x < 0 then NegInf else PosInf)
         else Fin (if x < 0 then - int n else int n))"

text \<open>\<^verbatim>\<open>a + b\<close>, \<^verbatim>\<open>a - b\<close> and \<^verbatim>\<open>a * 2\<close> on these numbers.\<close>

fun js_add :: "jsnum \<Rightarrow> jsnum \<Rightarrow> jsnum" where
  "js_add (Fin x) (Fin y) = to_double (x + y)"
| "js_add NaN _ = NaN"
| "js_add _ NaN = NaN"
| "js_add PosInf NegInf = NaN"
| "js_add NegInf PosInf = NaN"
| "js_add PosInf _ = PosInf"
| "js_add _ PosInf = PosInf"
| "js_add NegInf _ = NegInf"
| "js_add _ NegInf = NegInf"

fun js_neg :: "jsnum \<Rightarrow> jsnum" where
  "js_neg (Fin x) = Fin (- x)"
| "js_neg PosInf = NegInf"
| "js_neg NegInf = PosInf"
| "js_neg NaN = NaN"

definition js_sub :: "jsnum \<Rightarrow> jsnum \<Rightarrow> jsnum" where
  "js_sub a b = js_add a (js_neg b)"

fun js_times2 :: "jsnum \<Rightarrow> jsnum" where
  "js_times2 (Fin x) = to_double (x * 2)"
| "js_times2 PosInf = PosInf"
| "js_times2 NegInf = NegInf"
| "js_times2 NaN = NaN"

text \<open>
  \<^verbatim>\<open>parseInt(t, 10)\<close>: the number for the value of the leading decimal digits, NaN when
  there is none (a capture of \<^verbatim>\<open>\d+\<close> has one). The standard lets an engine drop digits
  after the twentieth; the model takes the value of all of them.
\<close>

definition parseInt10 :: "jsstring \<Rightarrow> jsnum" where
  "parseInt10 t =
     (let digits = takeWhile is_digit t
      in if digits = [] then NaN
         else to_double (foldl (\<lambda>a c. 10 * a + int (c - 48)) 0 digits))"

subsection \<open>The patterns\<close>

text \<open>\<^verbatim>\<open>/\b(\d+)\s+([A-Z]\d+)\s+\d+\s+\d+\s+([A-Z]{1,3}\d+)\b/g\<close>\<close>

definition page1_pattern :: regex where
  "page1_pattern =
     Cat Bound (Cat (Capture 1 (Plus Digit)) (Cat (Plus Space)
    (Cat (Capture 2 (Cat (Chr Upper) (Plus Digit))) (Cat (Plus Space)
    (Cat (Plus Digit) (Cat (Plus Space)
    (Cat (Plus Digit) (Cat (Plus Space)
    (Cat (Capture 3 (Cat (Repeat Upper 1 (Some 3)) (Plus Digit)))
     Bound)))))))))"

text \<open>\<^verbatim>\<open>/\b(\d+)([A-Z]\d+)-([A-Z]{1,3}\d+)(?:-\d+)?\b/g\<close> (src/App.jsx)\<close>

definition page2_pattern :: regex where
  "page2_pattern =
     Cat Bound (Cat (Capture 1 (Plus Digit))
    (Cat (Capture 2 (Cat (Chr Upper) (Plus Digit)))
    (Cat (Chr Dash)
    (Cat (Capture 3 (Cat (Repeat Upper 1 (Some 3)) (Plus Digit)))
    (Cat (Maybe (Cat (Chr Dash) (Plus Digit)))
     Bound)))))"

text \<open>\<^verbatim>\<open>/\b(\d+)\s*([A-Z]\d+)\s*-\s*([A-Z]{1,3}\d+)(?:-\s*\d+)?\b/g\<close> (the second
  version of the file, which allows whitespace around the dash)\<close>

definition page2_pattern_ws :: regex where
  "page2_pattern_ws =
     Cat Bound (Cat (Capture 1 (Plus Digit)) (Cat (Star Space)
    (Cat (Capture 2 (Cat (Chr Upper) (Plus Digit))) (Cat (Star Space)
    (Cat (Chr Dash) (Cat (Star Space)
    (Cat (Capture 3 (Cat (Repeat Upper 1 (Some 3)) (Plus Digit)))
    (Cat (Maybe (Cat (Chr Dash) (Cat (Star Space) (Plus Digit))))
     Bound))))))))"

subsection \<open>The extractors\<close>

record page1_item =
  p1_required :: jsnum
  p1_diameter :: jsstring
  p1_mark :: jsstring

record page2_item =
  p2_count :: jsnum
  p2_diameter :: jsstring
  p2_mark :: jsstring

definition page1_push :: "captures \<Rightarrow> page1_item" where
  "page1_push g =
     \<lparr>p1_required = parseInt10 (match_group g 1), p1_diameter = match_group g 2, p1_mark = match_group g 3\<rparr>"

definition page2_push :: "captures \<Rightarrow> page2_item" where
  "page2_push g =
     \<lparr>p2_count = parseInt10 (match_group g 1), p2_diameter = match_group g 2, p2_mark = match_group g 3\<rparr>"

definition extractPage1Data :: "jsstring \<Rightarrow> page1_item list option" where
  "extractPage1Data text = exec_loop page1_pattern page1_push text 0 []"

definition extractPage2Data :: "jsstring \<Rightarrow> page2_item list option" where
  "extractPage2Data text = exec_loop page2_pattern page2_push text 0 []"

definition extractPage2Data_ws :: "jsstring \<Rightarrow> page2_item list option" where
  "extractPage2Data_ws text = exec_loop page2_pattern_ws page2_push text 0 []"

section \<open>The application state and \<^verbatim>\<open>handleCompare\<close>\<close>

text \<open>
  \<^verbatim>\<open>page2Grouped\<close> is an object used as a dictionary from bar mark to
  \<^verbatim>\<open>{ total, diameter }\<close>. Its keys are captures of \<^verbatim>\<open>[A-Z]{1,3}\d+\<close>, which never name
  a property inherited from \<^verbatim>\<open>Object.prototype\<close>, so it is modelled as a map.
\<close>

record tally_group =
  g_total :: jsnum
  g_diameter :: jsstring

type_synonym groups = "jsstring \<rightharpoonup> tally_group"

datatype fault = TypeError

text \<open>
  The body of \<^verbatim>\<open>page2Data.forEach\<close>. Reading \<^verbatim>\<open>.total\<close> of \<^verbatim>\<open>page2Grouped[key]\<close>
  throws a TypeError when the entry is undefined.
\<close>

definition group_item :: "page2_item \<Rightarrow> groups \<Rightarrow> fault + groups" where
  "group_item item grouped =
     (let key = p2_mark item;
          grouped1 = (if grouped key = None
                      then grouped(key \<mapsto> \<lparr>g_total = Fin 0, g_diameter = p2_diameter item\<rparr>)
                      else grouped)
      in case grouped1 key of
           None \<Rightarrow> Inl TypeError
         | Some e \<Rightarrow> Inr (grouped1(key \<mapsto> e\<lparr>g_total := js_add (g_total e) (p2_count item)\<rparr>)))"

fun forEach_group :: "page2_item list \<Rightarrow> groups \<Rightarrow> fault + groups" where
  "forEach_group [] grouped = Inr grouped"
| "forEach_group (item # items) grouped =
     (case group_item item grouped of
        Inl e \<Rightarrow> Inl e
      | Inr grouped' \<Rightarrow> forEach_group items grouped')"

definition page2Grouped :: "page2_item list \<Rightarrow> fault + groups" where
  "page2Grouped page2Data = forEach_group page2Data Map.empty"

text \<open>\<^verbatim>\<open>Math.round\<close>: the nearest integer, a tie going up.\<close>

definition Math_round :: "rat \<Rightarrow> int" where
  "Math_round x = \<lfloor>x + 1 / 2\<rfloor>"

text \<open>
  \<^verbatim>\<open>Math.round(tally / 2)\<close>. Halving an integer-valued double is exact (below
  \<open>2\<^sup>5\<^sup>3\<close> the half needs no more than 53 bits, and from there on the number is
  even), and so is the rounding of the half.
\<close>

definition round_half :: "jsnum \<Rightarrow> jsnum" where
  "round_half x =
     (case x of
        Fin t \<Rightarrow> Fin (Math_round (of_int t / 2))
      | PosInf \<Rightarrow> PosInf
      | NegInf \<Rightarrow> NegInf
      | NaN \<Rightarrow> NaN)"

record row =
  mark :: jsstring
  required :: jsnum
  requiredDiameter :: jsstring
  tally :: jsnum
  extractedDiameter :: jsstring
  diff :: jsnum
  diameterMatch :: bool

text \<open>The function mapped over \<^verbatim>\<open>page1Data\<close> in src/App.jsx (the tally is halved when
  \<^verbatim>\<open>sectionAndLayout\<close> is set).\<close>

definition make_row :: "bool \<Rightarrow> groups \<Rightarrow> page1_item \<Rightarrow> row" where
  "make_row sectionAndLayout' grouped item =
     (let page2Entry = grouped (p1_mark item);
          tally0 = (case page2Entry of Some e \<Rightarrow> g_total e | None \<Rightarrow> Fin 0);
          tally1 = (if sectionAndLayout' then round_half tally0 else tally0);
          diff1 = js_sub tally1 (p1_required item);
          diameterMatch1 = (case page2Entry of
                              Some e \<Rightarrow> g_diameter e = p1_diameter item
                            | None \<Rightarrow> False)
      in \<lparr>mark = p1_mark item,
          required = p1_required item,
          requiredDiameter = p1_diameter item,
          tally = tally1,
          extractedDiameter = (case page2Entry of Some e \<Rightarrow> g_diameter e | None \<Rightarrow> js ''N/A''),
          diff = diff1,
          diameterMatch = diameterMatch1\<rparr>)"

text \<open>
  \<^verbatim>\<open>tableData.sort((a, b) => a.mark.localeCompare(b.mark))\<close>. The comparison is the
  host's: \<^verbatim>\<open>localeCompare\<close> without arguments collates in the default locale of the
  engine, so the comparator is a parameter. \<^verbatim>\<open>Array.prototype.sort\<close> is stable; for a
  consistent comparator its result is the one of this insertion sort.
\<close>

type_synonym comparator = "jsstring \<Rightarrow> jsstring \<Rightarrow> int"

fun insert_row :: "comparator \<Rightarrow> 'a row_scheme \<Rightarrow> 'a row_scheme list \<Rightarrow> 'a row_scheme list" where
  "insert_row cmp a [] = [a]"
| "insert_row cmp a (b # bs) =
     (if cmp (mark a) (mark b) < 0 then a # b # bs else b # insert_row cmp a bs)"

definition sort_rows :: "comparator \<Rightarrow> 'a row_scheme list \<Rightarrow> 'a row_scheme list" where
  "sort_rows cmp rows = foldl (\<lambda>sorted a. insert_row cmp a sorted) [] rows"

text \<open>The part of \<^verbatim>\<open>handleCompare\<close> after the two extractions, up to the sorted table.\<close>

definition compare_rows ::
  "comparator \<Rightarrow> bool \<Rightarrow> page1_item list \<Rightarrow> page2_item list \<Rightarrow> fault + row list" where
  "compare_rows localeCompare sectionAndLayout' page1Data page2Data =
     (case page2Grouped page2Data of
        Inl e \<Rightarrow> Inl e
      | Inr grouped \<Rightarrow>
          Inr (sort_rows localeCompare (map (make_row sectionAndLayout' grouped) page1Data)))"

record 'r app =
  text1 :: jsstring
  text2 :: jsstring
  results :: "'r list"
  sectionAndLayout :: bool
  ignoredRows :: "jsstring \<rightharpoonup> bool"

text \<open>
  \<^verbatim>\<open>handleCompare\<close> of src/App.jsx. The result is \<open>None\<close> when an extraction loop does
  not return, \<open>Some (Inl e)\<close> when an exception is thrown, and the next state otherwise.
\<close>

definition handleCompare :: "comparator \<Rightarrow> row app \<Rightarrow> (fault + row app) option" where
  "handleCompare localeCompare st =
     do {
       page1Data \<leftarrow> extractPage1Data (text1 st);
       page2Data \<leftarrow> extractPage2Data (text2 st);
       Some (case compare_rows localeCompare (sectionAndLayout st) page1Data page2Data of
               Inl e \<Rightarrow> Inl e
             | Inr tableData \<Rightarrow> Inr (st\<lparr>results := tableData\<rparr>))
     }"

subsection \<open>Ignore flags and the mismatch report\<close>

text \<open>\<^verbatim>\<open>m[key]\<close> read as a condition: an absent entry is \<^verbatim>\<open>undefined\<close>, which is falsy.\<close>

definition truthy :: "bool option \<Rightarrow> bool" where
  "truthy v = (case v of Some b \<Rightarrow> b | None \<Rightarrow> False)"

definition toggleIgnore :: "('r, 'x) app_scheme \<Rightarrow> jsstring \<Rightarrow> ('r, 'x) app_scheme" where
  "toggleIgnore st m = st\<lparr>ignoredRows := (ignoredRows st)(m \<mapsto> \<not> truthy (ignoredRows st m))\<rparr>"

text \<open>\<^verbatim>\<open>Array.prototype.join('\n')\<close>\<close>

fun join_nl :: "jsstring list \<Rightarrow> jsstring" where
  "join_nl [] = []"
| "join_nl [x] = x"
| "join_nl (x # y # ys) = x @ 10 # join_nl (y # ys)"

definition mismatched_rows ::
  "('a row_scheme, 'x) app_scheme \<Rightarrow> 'a row_scheme list" where
  "mismatched_rows st =
     filter (\<lambda>row. (diff row \<noteq> Fin 0 \<or> \<not> diameterMatch row) \<and> \<not> truthy (ignoredRows st (mark row)))
       (results st)"

definition mismatchedBars :: "('a row_scheme, 'x) app_scheme \<Rightarrow> jsstring" where
  "mismatchedBars st = join_nl (map mark (mismatched_rows st))"

text \<open>The text of the box: \<^verbatim>\<open>{mismatchedBars || "None"}\<close>; the empty string is falsy.\<close>

definition report :: "('a row_scheme, 'x) app_scheme \<Rightarrow> jsstring" where
  "report st = (if mismatchedBars st = [] then js ''None'' else mismatchedBars st)"

section \<open>The version with a per-row section view\<close>

text \<open>
  The second version of the file keeps the tally and doubles the required quantity of
  the rows that are in section view; \<^verbatim>\<open>inSectionRows\<close> holds the per-mark choice and
  \<^verbatim>\<open>sectionAndLayout\<close> is the default for a mark without one.
\<close>

record srow = row +
  inSection :: bool
  effectiveRequired :: jsnum

definition make_srow :: "(jsstring \<rightharpoonup> bool) \<Rightarrow> bool \<Rightarrow> groups \<Rightarrow> page1_item \<Rightarrow> srow" where
  "make_srow inSectionRows' sectionAndLayout' grouped item =
     (let page2Entry = grouped (p1_mark item);
          tally1 = (case page2Entry of Some e \<Rightarrow> g_total e | None \<Rightarrow> Fin 0);
          inSection1 = (case inSectionRows' (p1_mark item) of
                          Some b \<Rightarrow> b
                        | None \<Rightarrow> sectionAndLayout');
          effectiveRequired1 =
            (if inSection1 then js_times2 (p1_required item) else p1_required item)
      in \<lparr>mark = p1_mark item,
          required = p1_required item,
          requiredDiameter = p1_diameter item,
          tally = tally1,
          extractedDiameter = (case page2Entry of Some e \<Rightarrow> g_diameter e | None \<Rightarrow> js ''N/A''),
          diff = js_sub tally1 effectiveRequired1,
          diameterMatch = (case page2Entry of
                             Some e \<Rightarrow> g_diameter e = p1_diameter item
                           | None \<Rightarrow> False),
          inSection = inSection1,
          effectiveRequired = effectiveRequired1\<rparr>)"

definition compare_srows ::
  "comparator \<Rightarrow> (jsstring \<rightharpoonup> bool) \<Rightarrow> bool \<Rightarrow> page1_item list \<Rightarrow> page2_item list
     \<Rightarrow> fault + srow list" where
  "compare_srows localeCompare inSectionRows' sectionAndLayout' page1Data page2Data =
     (case page2Grouped page2Data of
        Inl e \<Rightarrow> Inl e
      | Inr grouped \<Rightarrow>
          Inr (sort_rows localeCompare
                 (map (make_srow inSectionRows' sectionAndLayout' grouped) page1Data)))"

record sapp = "srow app" +
  inSectionRows :: "jsstring \<rightharpoonup> bool"

text \<open>The updater of \<^verbatim>\<open>setInSectionRows\<close> in \<^verbatim>\<open>handleCompare\<close>: a mark without an entry
  gets the global default.\<close>

definition init_inSection ::
  "bool \<Rightarrow> 'a row_scheme list \<Rightarrow> (jsstring \<rightharpoonup> bool) \<Rightarrow> (jsstring \<rightharpoonup> bool)" where
  "init_inSection sectionAndLayout' tableData prev =
     fold (\<lambda>item newState.
             if newState (mark item) = None
             then newState(mark item \<mapsto> sectionAndLayout')
             else newState)
       tableData prev"

definition handleCompare_sv :: "comparator \<Rightarrow> sapp \<Rightarrow> (fault + sapp) option" where
  "handleCompare_sv localeCompare st =
     do {
       page1Data \<leftarrow> extractPage1Data (text1 st);
       page2Data \<leftarrow> extractPage2Data_ws (text2 st);
       Some (case compare_srows localeCompare (inSectionRows st) (sectionAndLayout st)
                    page1Data page2Data of
               Inl e \<Rightarrow> Inl e
             | Inr tableData \<Rightarrow>
                 Inr (st\<lparr>results := tableData,
                         inSectionRows :=
                           init_inSection (sectionAndLayout st) tableData (inSectionRows st)\<rparr>))
     }"

definition toggleInSection :: "sapp \<Rightarrow> jsstring \<Rightarrow> sapp" where
  "toggleInSection st m =
     (let newVal = \<not> truthy (inSectionRows st m);
          updatedResults =
            map (\<lambda>row. if mark row = m
                        then row\<lparr>inSection := newVal,
                                 effectiveRequired :=
                                   (if newVal then js_times2 (required row) else required row),
                                 diff := js_sub (tally row)
                                   (if newVal then js_times2 (required row) else required row)\<rparr>
                        else row)
              (results st)
      in st\<lparr>results := updatedResults, inSectionRows := (inSectionRows st)(m \<mapsto> newVal)\<rparr>)"

section \<open>Notions used in the statements\<close>

text \<open>
  A bar mark as the extractors capture it, \<^verbatim>\<open>[A-Z]{1,3}\d+\<close>: one to three upper-case
  letters followed by digits.
\<close>

definition mark_token :: "jsstring \<Rightarrow> bool" where
  "mark_token t =
     (let letters = takeWhile is_upper t; digits = dropWhile is_upper t
      in 1 \<le> length letters \<and> length letters \<le> 3 \<and> digits \<noteq> [] \<and> list_all is_digit digits)"

text \<open>The lines of a text, \<^verbatim>\<open>text.split('\n')\<close>.\<close>

fun split_nl :: "jsstring \<Rightarrow> jsstring list" where
  "split_nl [] = [[]]"
| "split_nl (c # cs) =
     (if c = 10 then [] # split_nl cs
      else (case split_nl cs of [] \<Rightarrow> [[c]] | l # ls \<Rightarrow> (c # l) # ls))"

text \<open>
  Ordinal comparison of two strings, code unit by code unit, with the sign convention
  of a comparator: negative when the first string comes first.
\<close>

fun ordinal_compare :: comparator where
  "ordinal_compare [] [] = 0"
| "ordinal_compare [] (b # bs) = - 1"
| "ordinal_compare (a # as) [] = 1"
| "ordinal_compare (a # as) (b # bs) =
     (if a < b then - 1 else if b < a then 1 else ordinal_compare as bs)"

text \<open>The least number of code units a match of a pattern consumes.\<close>

fun min_len :: "regex \<Rightarrow> nat" where
  "min_len (Chr c) = 1"
| "min_len Bound = 0"
| "min_len (Cat a b) = min_len a + min_len b"
| "min_len (Repeat c lo hi) = lo"
| "min_len (Maybe r) = 0"
| "min_len (Capture k r) = min_len r"

text \<open>
  What \<^verbatim>\<open>Array.prototype.sort\<close> asks of its comparator (a consistent comparator): the
  sign of a comparison flips with its arguments, and "not after" is transitive.
\<close>

definition consistent_comparator :: "comparator \<Rightarrow> bool" where
  "consistent_comparator cmp =
     ((\<forall>a b. (cmp a b < 0) = (0 < cmp b a))
      \<and> (\<forall>a b c. cmp a b \<le> 0 \<and> cmp b c \<le> 0 \<longrightarrow> cmp a c \<le> 0))"

text \<open>
  A comparator that \<^verbatim>\<open>localeCompare\<close> can be: collation in a Czech locale, on strings of
  digits and upper-case letters. Digits come before letters and the letters are in
  alphabetical order, as in code unit order, except that the digraph CH is one letter,
  placed between H and I.
\<close>

fun collation_keys_cs :: "jsstring \<Rightarrow> nat list" where
  "collation_keys_cs (c # h # t) =
     (if c = 67 \<and> h = 72 then (2 * 72 + 1) # collation_keys_cs t
      else (2 * c) # collation_keys_cs (h # t))"
| "collation_keys_cs [c] = [2 * c]"
| "collation_keys_cs [] = []"

definition localeCompare_cs :: comparator where
  "localeCompare_cs a b = ordinal_compare (collation_keys_cs a) (collation_keys_cs b)"





text \<open>The object \<^verbatim>\<open>toggleInSection\<close> puts in place of a row of the toggled mark.\<close>

definition toggled_row :: "bool \<Rightarrow> srow \<Rightarrow> srow" where
  "toggled_row newVal row =
     row\<lparr>inSection := newVal,
         effectiveRequired := (if newVal then js_times2 (required row) else required row),
         diff := js_sub (tally row) (if newVal then js_times2 (required row) else required row)\<rparr>"

text \<open>
  The strict tally grammar, as the specification words it: an integer immediately
  followed by a diameter token (one upper-case letter and digits), a dash with no
  whitespace around it, a mark token (one to three upper-case letters and digits), and
  an optional suffix of a dash and an integer.
\<close>

definition strict_token :: "jsstring \<Rightarrow> bool" where
  "strict_token t =
     (let count = takeWhile is_digit t; r1 = dropWhile is_digit t
      in count \<noteq> [] \<and>
         (case r1 of
            [] \<Rightarrow> False
          | letter # r2 \<Rightarrow>
              is_upper letter \<and>
              (let size = takeWhile is_digit r2; r3 = dropWhile is_digit r2
               in size \<noteq> [] \<and>
                  (case r3 of
                     [] \<Rightarrow> False
                   | dash # r4 \<Rightarrow>
                       dash = 45 \<and>
                       (let letters = takeWhile is_upper r4; r5 = dropWhile is_upper r4;
                            digits = takeWhile is_digit r5; suffix = dropWhile is_digit r5
                        in 1 \<le> length letters \<and> length letters \<le> 3 \<and> digits \<noteq> [] \<and>
                           (case suffix of
                              [] \<Rightarrow> True
                            | dash2 # number \<Rightarrow>
                                dash2 = 45 \<and> number \<noteq> [] \<and> list_all is_digit number))))))"

text \<open>The pieces of a text between whitespace, \<^verbatim>\<open>text.split(/\s/)\<close>.\<close>

fun split_ws :: "jsstring \<Rightarrow> jsstring list" where
  "split_ws [] = [[]]"
| "split_ws (c # cs) =
     (if is_space c then [] # split_ws cs
      else (case split_ws cs of [] \<Rightarrow> [[c]] | l # ls \<Rightarrow> (c # l) # ls))"

text \<open>A text conforms to the strict grammar when it consists of strict tokens separated
  by whitespace.\<close>

definition conforms_strict :: "jsstring \<Rightarrow> bool" where
  "conforms_strict text = list_all strict_token (filter (\<lambda>t. t \<noteq> []) (split_ws text))"

text \<open>
  The texts on which the two tally patterns cannot differ: no whitespace stands directly
  before an upper-case letter or a dash, and none directly after a dash.
\<close>

definition strictly_spaced :: "jsstring \<Rightarrow> bool" where
  "strictly_spaced s =
     list_all (\<lambda>(a, b). \<not> (is_space a \<and> (is_upper b \<or> b = 45)) \<and> \<not> (a = 45 \<and> is_space b))
       (zip s (tl s))"

text \<open>The groups a pattern can write.\<close>

fun caps_of :: "regex \<Rightarrow> nat set" where
  "caps_of (Chr c) = {}"
| "caps_of Bound = {}"
| "caps_of (Cat a b) = caps_of a \<union> caps_of b"
| "caps_of (Repeat c lo hi) = {}"
| "caps_of (Maybe r) = caps_of r"
| "caps_of (Capture k r) = insert k (caps_of r)"

section \<open>Numbers\<close>

text \<open>Integers up to \<open>2\<^sup>5\<^sup>3\<close> in size are doubles, so sums of small counts are exact.\<close>

lemma to_double_exact: "\<bar>x\<bar> \<le> 2 ^ 53 \<Longrightarrow> to_double x = Fin x"
proof -
  assume a: "\<bar>x\<bar> \<le> 2 ^ 53"
  let ?n = "nat \<bar>x\<bar>"
  have n: "?n \<le> 2 ^ 53" using a by (simp add: nat_le_iff)
  have r: "round_to_53 ?n = ?n"
  proof (cases "?n < 2 ^ 53")
    case True
    then have "excess_bits ?n = 0" by (simp add: excess_bits.simps)
    then show ?thesis by (simp add: round_to_53_def)
  next
    case False
    then have e: "?n = 2 ^ 53" using n by simp
    have "excess_bits (2 ^ 53) = 1"
      by (subst excess_bits.simps, subst excess_bits.simps) simp
    then show ?thesis unfolding e by (simp add: round_to_53_def)
  qed
  have "?n < 2 ^ 1024"
  proof -
    have "(2::nat) ^ 53 < 2 ^ 1024" by (rule power_strict_increasing) simp_all
    then show ?thesis using n by simp
  qed
  then show ?thesis unfolding to_double_def r Let_def by auto
qed

lemma js_add_exact: "\<bar>x + y\<bar> \<le> 2 ^ 53 \<Longrightarrow> js_add (Fin x) (Fin y) = Fin (x + y)"
  by (simp add: to_double_exact)

lemma js_sub_exact: "\<bar>x - y\<bar> \<le> 2 ^ 53 \<Longrightarrow> js_sub (Fin x) (Fin y) = Fin (x - y)"
  by (simp add: js_sub_def to_double_exact)

lemma js_times2_exact: "\<bar>x * 2\<bar> \<le> 2 ^ 53 \<Longrightarrow> js_times2 (Fin x) = Fin (x * 2)"
  by (simp add: to_double_exact)

lemma foldl_js_add_exact:
  "\<forall>c \<in> set cs. 0 \<le> c \<Longrightarrow> 0 \<le> a \<Longrightarrow> a + sum_list cs \<le> 2 ^ 53 \<Longrightarrow>
   foldl js_add (Fin a) (map Fin cs) = Fin (a + sum_list cs)"
proof (induction cs arbitrary: a)
  case Nil
  show ?case by simp
next
  case (Cons c cs)
  have s: "0 \<le> sum_list cs" using Cons.prems(1) by (simp add: sum_list_nonneg)
  have c: "0 \<le> c" using Cons.prems(1) by simp
  have "\<bar>a + c\<bar> \<le> 2 ^ 53" using Cons.prems(2,3) s c by simp
  then have 1: "js_add (Fin a) (Fin c) = Fin (a + c)" by (rule js_add_exact)
  have "foldl js_add (Fin (a + c)) (map Fin cs) = Fin (a + c + sum_list cs)"
    using Cons.prems c by (intro Cons.IH) auto
  then show ?case using 1 by (simp add: add.assoc)
qed

section \<open>Aggregation of the tally records\<close>

text \<open>What the \<^verbatim>\<open>forEach\<close> loop leaves in the dictionary, from any starting dictionary.\<close>

lemma group_item_closed:
  "group_item item g0 =
     Inr (\<lambda>m. if p2_mark item = m
               then (case g0 m of
                       None \<Rightarrow> Some \<lparr>g_total = js_add (Fin 0) (p2_count item),
                                      g_diameter = p2_diameter item\<rparr>
                     | Some e \<Rightarrow> Some (e\<lparr>g_total := js_add (g_total e) (p2_count item)\<rparr>))
               else g0 m)"
  by (auto simp: group_item_def Let_def fun_eq_iff split: option.splits)

lemma forEach_group_closed:
  "forEach_group items g0 =
     Inr (\<lambda>m. case filter (\<lambda>r. p2_mark r = m) items of
                 [] \<Rightarrow> g0 m
               | r # rs \<Rightarrow>
                   (case g0 m of
                      None \<Rightarrow> Some \<lparr>g_total = foldl js_add (Fin 0) (map p2_count (r # rs)),
                                     g_diameter = p2_diameter r\<rparr>
                    | Some e \<Rightarrow>
                        Some (e\<lparr>g_total := foldl js_add (g_total e) (map p2_count (r # rs))\<rparr>)))"
proof (induction items arbitrary: g0)
  case Nil
  show ?case by simp
next
  case (Cons item items)
  show ?case
    by (simp add: group_item_closed Cons.IH)
       (auto simp: fun_eq_iff split: option.splits list.splits)
qed

lemma page2Grouped_closed:
  "page2Grouped page2Data =
     Inr (\<lambda>m. case filter (\<lambda>item. p2_mark item = m) page2Data of
                 [] \<Rightarrow> None
               | first # rest \<Rightarrow>
                   Some \<lparr>g_total = foldl js_add (Fin 0) (map p2_count (first # rest)),
                         g_diameter = p2_diameter first\<rparr>)"
  by (simp add: page2Grouped_def forEach_group_closed fun_eq_iff split: list.splits)

text \<open>The facts that evaluate an extractor on a given text.\<close>

lemmas run_extract = exec_loop.simps exec_def js_def word_boundary_def is_word_def is_digit_def
  is_upper_def is_space_def page1_push_def page2_push_def match_group_def parseInt10_def
  to_double_exact

text \<open>
  C2, as stated, fails: the total is accumulated with \<^verbatim>\<open>+=\<close> on doubles, and from
  \<open>2\<^sup>5\<^sup>3\<close> on a double sum is not the exact sum. For the counts 9007199254740992 and 1
  of one mark the total of the group is 9007199254740992.
\<close>

theorem double_sum_counterexample:
  "extractPage2Data (js ''9007199254740992Y1-A1 1Y1-A1'')
     = Some [\<lparr>p2_count = Fin 9007199254740992, p2_diameter = js ''Y1'', p2_mark = js ''A1''\<rparr>,
             \<lparr>p2_count = Fin 1, p2_diameter = js ''Y1'', p2_mark = js ''A1''\<rparr>]
   \<and> page2Grouped
        [\<lparr>p2_count = Fin 9007199254740992, p2_diameter = js ''Y1'', p2_mark = js ''A1''\<rparr>,
         \<lparr>p2_count = Fin 1, p2_diameter = js ''Y1'', p2_mark = js ''A1''\<rparr>]
     = Inr [js ''A1'' \<mapsto> \<lparr>g_total = Fin 9007199254740992, g_diameter = js ''Y1''\<rparr>]
   \<and> Fin (9007199254740992 + 1) \<noteq> Fin 9007199254740992"
proof -
  have e: "extractPage2Data (js ''9007199254740992Y1-A1 1Y1-A1'')
     = Some [\<lparr>p2_count = Fin 9007199254740992, p2_diameter = js ''Y1'', p2_mark = js ''A1''\<rparr>,
             \<lparr>p2_count = Fin 1, p2_diameter = js ''Y1'', p2_mark = js ''A1''\<rparr>]"
    by (simp add: extractPage2Data_def page2_pattern_def run_extract)
  have a: "js_add (Fin 9007199254740992) (Fin 1) = Fin 9007199254740992"
    by (simp add: to_double_def round_to_53_def excess_bits.simps Let_def)
  have g: "page2Grouped
        [\<lparr>p2_count = Fin 9007199254740992, p2_diameter = js ''Y1'', p2_mark = js ''A1''\<rparr>,
         \<lparr>p2_count = Fin 1, p2_diameter = js ''Y1'', p2_mark = js ''A1''\<rparr>]
     = Inr [js ''A1'' \<mapsto> \<lparr>g_total = Fin 9007199254740992, g_diameter = js ''Y1''\<rparr>]"
    by (simp add: page2Grouped_def group_item_def Let_def js_add_exact a del: js_add.simps)
  show ?thesis using e g by simp
qed

text \<open>
  C2, amended. Aggregation by mark returns a dictionary (it never throws) in which a
  mark has a group exactly when some record carries it. The total of the group is the
  sum of the counts of the records with that mark, added up in input order as doubles;
  it is their exact sum whenever that sum is at most \<open>2\<^sup>5\<^sup>3\<close>. The diameter of the
  group is the diameter of the first record with the mark.
\<close>

theorem page2Grouped_sum_and_first_diameter:
  "\<exists>grouped. page2Grouped page2Data = Inr grouped \<and>
     (\<forall>m. grouped m =
        (case filter (\<lambda>item. p2_mark item = m) page2Data of
           [] \<Rightarrow> None
         | first # rest \<Rightarrow>
             Some \<lparr>g_total = foldl js_add (Fin 0) (map p2_count (first # rest)),
                   g_diameter = p2_diameter first\<rparr>)) \<and>
     (\<forall>m counts.
        map p2_count (filter (\<lambda>item. p2_mark item = m) page2Data) = map Fin counts
        \<and> counts \<noteq> [] \<and> (\<forall>c \<in> set counts. 0 \<le> c) \<and> sum_list counts \<le> 2 ^ 53
        \<longrightarrow> map_option g_total (grouped m) = Some (Fin (sum_list counts)))"
proof -
  let ?g = "\<lambda>m. case filter (\<lambda>item. p2_mark item = m) page2Data of
                 [] \<Rightarrow> None
               | first # rest \<Rightarrow>
                   Some \<lparr>g_total = foldl js_add (Fin 0) (map p2_count (first # rest)),
                         g_diameter = p2_diameter first\<rparr>"
  have exact: "\<And>m counts.
        map p2_count (filter (\<lambda>item. p2_mark item = m) page2Data) = map Fin counts \<Longrightarrow>
        counts \<noteq> [] \<Longrightarrow> \<forall>c \<in> set counts. 0 \<le> c \<Longrightarrow> sum_list counts \<le> 2 ^ 53 \<Longrightarrow>
        map_option g_total (?g m) = Some (Fin (sum_list counts))"
  proof -
    fix m counts
    assume c: "map p2_count (filter (\<lambda>item. p2_mark item = m) page2Data) = map Fin counts"
      and ne: "counts \<noteq> []" and pos: "\<forall>c \<in> set counts. 0 \<le> c"
      and le: "sum_list counts \<le> 2 ^ 53"
    from c ne obtain first rest where f: "filter (\<lambda>item. p2_mark item = m) page2Data = first # rest"
      by (cases "filter (\<lambda>item. p2_mark item = m) page2Data") auto
    have "foldl js_add (Fin 0) (map Fin counts) = Fin (0 + sum_list counts)"
      using pos le by (intro foldl_js_add_exact) auto
    moreover have "map p2_count (first # rest) = map Fin counts"
      using f c by simp
    ultimately have "foldl js_add (Fin 0) (map p2_count (first # rest)) = Fin (sum_list counts)"
      by simp
    then show "map_option g_total (?g m) = Some (Fin (sum_list counts))"
      unfolding f by simp
  qed
  show ?thesis
    unfolding page2Grouped_closed using exact by blast
qed

theorem page2Grouped_sum_and_first_diameter_witness:
  "page2Grouped [\<lparr>p2_count = Fin 15, p2_diameter = js ''R10'', p2_mark = js ''CL1''\<rparr>,
                 \<lparr>p2_count = Fin 2, p2_diameter = js ''Y16'', p2_mark = js ''LS1''\<rparr>,
                 \<lparr>p2_count = Fin 13, p2_diameter = js ''Y12'', p2_mark = js ''CL1''\<rparr>]
     = Inr [js ''CL1'' \<mapsto> \<lparr>g_total = Fin 28, g_diameter = js ''R10''\<rparr>,
            js ''LS1'' \<mapsto> \<lparr>g_total = Fin 2, g_diameter = js ''Y16''\<rparr>]
   \<and> sum_list [15, 13] = (28 :: int)"
  using page2Grouped_sum_and_first_diameter [of
      "[\<lparr>p2_count = Fin 15, p2_diameter = js ''R10'', p2_mark = js ''CL1''\<rparr>,
        \<lparr>p2_count = Fin 2, p2_diameter = js ''Y16'', p2_mark = js ''LS1''\<rparr>,
        \<lparr>p2_count = Fin 13, p2_diameter = js ''Y12'', p2_mark = js ''CL1''\<rparr>]"]
  by (simp add: page2Grouped_def group_item_def Let_def js_def to_double_exact fun_upd_twist)

section \<open>The sorted table\<close>

lemma mset_insert_row: "mset (insert_row cmp a bs) = add_mset a (mset bs)"
  by (induction bs) auto

lemma mset_foldl_insert_row:
  "mset (foldl (\<lambda>sorted a. insert_row cmp a sorted) acc rows) = mset acc + mset rows"
  by (induction rows arbitrary: acc) (auto simp: mset_insert_row)

lemma mset_sort_rows: "mset (sort_rows cmp rows) = mset rows"
  by (simp add: sort_rows_def mset_foldl_insert_row)

lemma set_sort_rows: "set (sort_rows cmp rows) = set rows"
  using mset_sort_rows[of cmp rows] by (metis set_mset_mset)

section \<open>Ignore flags\<close>

lemma report_cong:
  "results st' = results st \<Longrightarrow>
   \<forall>k. truthy (ignoredRows st' k) = truthy (ignoredRows st k) \<Longrightarrow>
   report st' = report st"
  by (simp add: report_def mismatchedBars_def mismatched_rows_def)

lemma toggleIgnore_entry:
  "ignoredRows (toggleIgnore st m) k =
     (if k = m then Some (\<not> truthy (ignoredRows st m)) else ignoredRows st k)"
  by (simp add: toggleIgnore_def)

lemma toggleIgnore_results: "results (toggleIgnore st m) = results st"
  by (simp add: toggleIgnore_def)

text \<open>
  C10. Applying \<^verbatim>\<open>toggleIgnore\<close> to a mark twice leaves the entry of that mark at its
  previous effective value (an absent entry counts as false), leaves the rows alone and
  so gives the same mismatch report; one application negates the effective value of that
  mark and changes the entry of no other mark.
\<close>

theorem toggleIgnore_twice:
  "ignoredRows (toggleIgnore (toggleIgnore st m) m) m = Some (truthy (ignoredRows st m))
   \<and> (\<forall>k. truthy (ignoredRows (toggleIgnore (toggleIgnore st m) m) k) = truthy (ignoredRows st k))
   \<and> results (toggleIgnore (toggleIgnore st m) m) = results st
   \<and> report (toggleIgnore (toggleIgnore st m) m) = report st
   \<and> (\<forall>k. k \<noteq> m \<longrightarrow> ignoredRows (toggleIgnore st m) k = ignoredRows st k)
   \<and> truthy (ignoredRows (toggleIgnore st m) m) = (\<not> truthy (ignoredRows st m))"
proof -
  have same: "\<forall>k. truthy (ignoredRows (toggleIgnore (toggleIgnore st m) m) k) = truthy (ignoredRows st k)"
    by (simp add: toggleIgnore_entry truthy_def)
  have "report (toggleIgnore (toggleIgnore st m) m) = report st"
    by (rule report_cong) (simp_all add: toggleIgnore_results same)
  then show ?thesis
    using same by (simp add: toggleIgnore_entry toggleIgnore_results truthy_def)
qed

theorem toggleIgnore_twice_witness:
  "report (toggleIgnore (toggleIgnore
      \<lparr>text1 = [], text2 = [],
       results = [\<lparr>mark = js ''A1'', required = Fin 2, requiredDiameter = js ''Y12'', tally = Fin 1,
                   extractedDiameter = js ''Y12'', diff = Fin (- 1), diameterMatch = True\<rparr>],
       sectionAndLayout = False, ignoredRows = Map.empty\<rparr> (js ''A1'')) (js ''A1''))
     = js ''A1''
   \<and> report (toggleIgnore
      \<lparr>text1 = [], text2 = [],
       results = [\<lparr>mark = js ''A1'', required = Fin 2, requiredDiameter = js ''Y12'', tally = Fin 1,
                   extractedDiameter = js ''Y12'', diff = Fin (- 1), diameterMatch = True\<rparr>],
       sectionAndLayout = False, ignoredRows = Map.empty\<rparr> (js ''A1''))
     = js ''None''
   \<and> js ''B2'' \<noteq> js ''A1''
   \<and> ignoredRows (toggleIgnore
      \<lparr>text1 = [], text2 = [],
       results = [\<lparr>mark = js ''A1'', required = Fin 2, requiredDiameter = js ''Y12'', tally = Fin 1,
                   extractedDiameter = js ''Y12'', diff = Fin (- 1), diameterMatch = True\<rparr>],
       sectionAndLayout = False, ignoredRows = Map.empty\<rparr> (js ''A1'')) (js ''B2'') = None"
  using toggleIgnore_twice [of
      "\<lparr>text1 = [], text2 = [],
       results = [\<lparr>mark = js ''A1'', required = Fin 2, requiredDiameter = js ''Y12'', tally = Fin 1,
                   extractedDiameter = js ''Y12'', diff = Fin (- 1), diameterMatch = True\<rparr>],
       sectionAndLayout = False, ignoredRows = Map.empty\<rparr>" "js ''A1''"]
  by (simp add: toggleIgnore_def report_def mismatchedBars_def mismatched_rows_def truthy_def js_def)

section \<open>The mismatch report\<close>

lemma split_nl_no_newline: "10 \<notin> set x \<Longrightarrow> split_nl x = [x]"
  by (induction x) auto

lemma split_nl_append: "10 \<notin> set x \<Longrightarrow> split_nl (x @ 10 # rest) = x # split_nl rest"
  by (induction x) auto

lemma split_join_nl:
  "ms \<noteq> [] \<Longrightarrow> \<forall>m \<in> set ms. 10 \<notin> set m \<Longrightarrow> split_nl (join_nl ms) = ms"
  by (induction ms rule: join_nl.induct) (auto simp: split_nl_no_newline split_nl_append)

lemma join_nl_eq_Nil: "\<forall>m \<in> set ms. m \<noteq> [] \<Longrightarrow> (join_nl ms = []) = (ms = [])"
  by (induction ms rule: join_nl.induct) auto

lemma mark_token_nonempty: "mark_token t \<Longrightarrow> t \<noteq> []"
  by (auto simp: mark_token_def Let_def)

lemma mark_token_chars: "mark_token t \<Longrightarrow> c \<in> set t \<Longrightarrow> is_upper c \<or> is_digit c"
proof -
  assume a: "mark_token t" and c: "c \<in> set t"
  have "t = takeWhile is_upper t @ dropWhile is_upper t" by simp
  then have "c \<in> set (takeWhile is_upper t) \<or> c \<in> set (dropWhile is_upper t)"
    using c by (metis Un_iff set_append)
  then show ?thesis
    using a by (auto simp: mark_token_def Let_def list_all_iff dest: set_takeWhileD)
qed

lemma mark_token_no_newline: "mark_token t \<Longrightarrow> 10 \<notin> set t"
  by (auto dest: mark_token_chars simp: is_upper_def is_digit_def)

lemma mark_token_last_digit: "mark_token t \<Longrightarrow> is_digit (last t)"
proof -
  assume a: "mark_token t"
  have t: "t = takeWhile is_upper t @ dropWhile is_upper t" by simp
  from a have d: "dropWhile is_upper t \<noteq> []" "list_all is_digit (dropWhile is_upper t)"
    by (auto simp: mark_token_def Let_def)
  have "last t = last (dropWhile is_upper t)"
    using d(1) by (metis t last_appendR)
  then show ?thesis using d by (simp add: list_all_iff)
qed

lemma join_nl_last: "ms \<noteq> [] \<Longrightarrow> \<forall>m \<in> set ms. m \<noteq> [] \<Longrightarrow> last (join_nl ms) = last (last ms)"
proof (induction ms rule: join_nl.induct)
  case (3 x y ys)
  have "join_nl (y # ys) \<noteq> []"
    using join_nl_eq_Nil[of "y # ys"] "3.prems" by simp
  then show ?case using 3 by simp
qed simp_all

lemma js_None: "js ''None'' = [78, 111, 110, 101]"
  by (simp add: js_def)

text \<open>
  C3. For rows whose marks are bar marks: a mark is listed in the mismatch report exactly
  when one of its rows has a non-zero difference or a diameter mismatch and the mark is
  not ignored; the listed marks keep the order of the rows; the report is the text
  \<^verbatim>\<open>None\<close> exactly when no row qualifies, and otherwise the qualifying marks joined
  by newlines, one mark per line.
\<close>

theorem report_lists_mismatched_marks:
  assumes wf: "\<forall>row \<in> set (results st). mark_token (mark row)"
  shows "(\<forall>m. m \<in> set (map mark (mismatched_rows st)) \<longleftrightarrow>
            (\<exists>row \<in> set (results st). mark row = m \<and> (diff row \<noteq> Fin 0 \<or> \<not> diameterMatch row)
                 \<and> \<not> truthy (ignoredRows st m)))
       \<and> (\<forall>R. sorted_wrt R (map mark (results st)) \<longrightarrow> sorted_wrt R (map mark (mismatched_rows st)))
       \<and> (report st = js ''None'' \<longleftrightarrow> mismatched_rows st = [])
       \<and> (mismatched_rows st \<noteq> [] \<longrightarrow>
            report st = join_nl (map mark (mismatched_rows st))
            \<and> split_nl (report st) = map mark (mismatched_rows st))"
proof -
  let ?ms = "map mark (mismatched_rows st)"
  have sub: "set (mismatched_rows st) \<subseteq> set (results st)"
    by (auto simp: mismatched_rows_def)
  have tok: "\<forall>m \<in> set ?ms. mark_token m"
    using wf sub by auto
  have ne: "\<forall>m \<in> set ?ms. m \<noteq> []"
    using tok mark_token_nonempty by blast
  have nl: "\<forall>m \<in> set ?ms. 10 \<notin> set m"
    using tok mark_token_no_newline by blast
  have empty: "(mismatchedBars st = []) = (mismatched_rows st = [])"
    using join_nl_eq_Nil[OF ne] by (simp add: mismatchedBars_def)
  have a: "\<forall>m. m \<in> set ?ms \<longleftrightarrow>
            (\<exists>row \<in> set (results st). mark row = m \<and> (diff row \<noteq> Fin 0 \<or> \<not> diameterMatch row)
                 \<and> \<not> truthy (ignoredRows st m))"
    by (auto simp: mismatched_rows_def)
  have b: "\<forall>R. sorted_wrt R (map mark (results st)) \<longrightarrow> sorted_wrt R ?ms"
    by (simp add: mismatched_rows_def sorted_wrt_map sorted_wrt_filter)
  have d: "mismatched_rows st \<noteq> [] \<longrightarrow>
            report st = join_nl ?ms \<and> split_nl (report st) = ?ms"
    using empty split_join_nl[of ?ms] nl by (simp add: report_def mismatchedBars_def)
  have c: "report st = js ''None'' \<longleftrightarrow> mismatched_rows st = []"
  proof
    assume r: "report st = js ''None''"
    show "mismatched_rows st = []"
    proof (rule ccontr)
      assume n: "mismatched_rows st \<noteq> []"
      then have "report st = join_nl ?ms" using d by simp
      then have "last (report st) = last (last ?ms)"
        using join_nl_last[of ?ms] n ne by simp
      moreover have "last ?ms \<in> set ?ms" using n last_in_set[of ?ms] by simp
      ultimately have "is_digit (last (report st))"
        using tok mark_token_last_digit by metis
      then show False using r by (simp add: js_None is_digit_def)
    qed
  next
    assume "mismatched_rows st = []"
    then show "report st = js ''None''" using empty by (simp add: report_def)
  qed
  show ?thesis using a b c d by blast
qed

theorem report_lists_mismatched_marks_witness:
  "mark_token (js ''A1'') \<and> mark_token (js ''B2'') \<and> mark_token (js ''CL3'') \<and> mark_token (js ''D4'')
   \<and> report
      \<lparr>text1 = [], text2 = [],
       results = [\<lparr>mark = js ''A1'', required = Fin 2, requiredDiameter = js ''Y12'', tally = Fin 1,
                   extractedDiameter = js ''Y12'', diff = Fin (- 1), diameterMatch = True\<rparr>,
                  \<lparr>mark = js ''B2'', required = Fin 2, requiredDiameter = js ''Y12'', tally = Fin 2,
                   extractedDiameter = js ''Y12'', diff = Fin 0, diameterMatch = True\<rparr>,
                  \<lparr>mark = js ''CL3'', required = Fin 2, requiredDiameter = js ''Y12'', tally = Fin 2,
                   extractedDiameter = js ''R10'', diff = Fin 0, diameterMatch = False\<rparr>,
                  \<lparr>mark = js ''D4'', required = Fin 2, requiredDiameter = js ''Y12'', tally = Fin 0,
                   extractedDiameter = js ''N/A'', diff = Fin (- 2), diameterMatch = False\<rparr>],
       sectionAndLayout = False, ignoredRows = [js ''D4'' \<mapsto> True]\<rparr>
     = js ''A1'' @ 10 # js ''CL3''
   \<and> split_nl (js ''A1'' @ 10 # js ''CL3'') = [js ''A1'', js ''CL3'']"
proof -
  let ?st = "\<lparr>text1 = [], text2 = [],
       results = [\<lparr>mark = js ''A1'', required = Fin 2, requiredDiameter = js ''Y12'', tally = Fin 1,
                   extractedDiameter = js ''Y12'', diff = Fin (- 1), diameterMatch = True\<rparr>,
                  \<lparr>mark = js ''B2'', required = Fin 2, requiredDiameter = js ''Y12'', tally = Fin 2,
                   extractedDiameter = js ''Y12'', diff = Fin 0, diameterMatch = True\<rparr>,
                  \<lparr>mark = js ''CL3'', required = Fin 2, requiredDiameter = js ''Y12'', tally = Fin 2,
                   extractedDiameter = js ''R10'', diff = Fin 0, diameterMatch = False\<rparr>,
                  \<lparr>mark = js ''D4'', required = Fin 2, requiredDiameter = js ''Y12'', tally = Fin 0,
                   extractedDiameter = js ''N/A'', diff = Fin (- 2), diameterMatch = False\<rparr>],
       sectionAndLayout = False, ignoredRows = [js ''D4'' \<mapsto> True]\<rparr>"
  have tok: "mark_token (js ''A1'') \<and> mark_token (js ''B2'') \<and> mark_token (js ''CL3'') \<and> mark_token (js ''D4'')"
    by (simp add: mark_token_def js_def is_digit_def is_upper_def)
  then have wf: "\<forall>row \<in> set (results ?st). mark_token (mark row)"
    by simp
  have rows: "map mark (mismatched_rows ?st) = [js ''A1'', js ''CL3'']"
    by (simp add: mismatched_rows_def truthy_def js_def)
  have ne: "mismatched_rows ?st \<noteq> []"
    using rows by auto
  have "report ?st = join_nl (map mark (mismatched_rows ?st))"
    using report_lists_mismatched_marks [OF wf] ne by blast
  then have r: "report ?st = js ''A1'' @ 10 # js ''CL3''"
    unfolding rows by simp
  have s: "split_nl (js ''A1'' @ 10 # js ''CL3'') = [js ''A1'', js ''CL3'']"
    by (simp add: js_def)
  show ?thesis
    using tok r s by blast
qed

section \<open>The rows of the table\<close>

lemma Math_round_half: "Math_round (of_int n / 2) = (n + 1) div 2"
proof -
  have "(of_int n / 2 + 1 / 2 :: rat) = of_int (n + 1) / of_int 2" by (simp add: add_divide_distrib)
  then show ?thesis unfolding Math_round_def by (simp only: floor_divide_of_int_eq)
qed

lemma Math_round_zero: "Math_round 0 = 0"
  using Math_round_half[of 0] by simp

lemma Math_round_half_up: "of_int (Math_round x) - 1 / 2 \<le> x \<and> x < of_int (Math_round x) + 1 / 2"
  unfolding Math_round_def by linarith

lemma round_half_Fin: "round_half (Fin t) = Fin ((t + 1) div 2)"
  by (simp add: round_half_def Math_round_half)

lemma make_row_fields:
  "mark (make_row sl grouped item) = p1_mark item"
  "required (make_row sl grouped item) = p1_required item"
  "requiredDiameter (make_row sl grouped item) = p1_diameter item"
  "diff (make_row sl grouped item) = js_sub (tally (make_row sl grouped item)) (p1_required item)"
  "tally (make_row sl grouped item) =
     (let t = (case grouped (p1_mark item) of Some e \<Rightarrow> g_total e | None \<Rightarrow> Fin 0)
      in if sl then round_half t else t)"
  "extractedDiameter (make_row sl grouped item) =
     (case grouped (p1_mark item) of Some e \<Rightarrow> g_diameter e | None \<Rightarrow> js ''N/A'')"
  "diameterMatch (make_row sl grouped item) =
     (case grouped (p1_mark item) of Some e \<Rightarrow> g_diameter e = p1_diameter item | None \<Rightarrow> False)"
  by (simp_all add: make_row_def Let_def)

lemma make_srow_fields:
  "mark (make_srow isr sl grouped item) = p1_mark item"
  "required (make_srow isr sl grouped item) = p1_required item"
  "requiredDiameter (make_srow isr sl grouped item) = p1_diameter item"
  "inSection (make_srow isr sl grouped item) =
     (case isr (p1_mark item) of Some b \<Rightarrow> b | None \<Rightarrow> sl)"
  "effectiveRequired (make_srow isr sl grouped item) =
     (if inSection (make_srow isr sl grouped item)
      then js_times2 (p1_required item) else p1_required item)"
  "diff (make_srow isr sl grouped item) =
     js_sub (tally (make_srow isr sl grouped item)) (effectiveRequired (make_srow isr sl grouped item))"
  "tally (make_srow isr sl grouped item) =
     (case grouped (p1_mark item) of Some e \<Rightarrow> g_total e | None \<Rightarrow> Fin 0)"
  "extractedDiameter (make_srow isr sl grouped item) =
     (case grouped (p1_mark item) of Some e \<Rightarrow> g_diameter e | None \<Rightarrow> js ''N/A'')"
  "diameterMatch (make_srow isr sl grouped item) =
     (case grouped (p1_mark item) of Some e \<Rightarrow> g_diameter e = p1_diameter item | None \<Rightarrow> False)"
  by (simp_all add: make_srow_def Let_def)

lemma compare_rows_Inr:
  "page2Grouped tals = Inr grouped \<Longrightarrow>
   compare_rows cmp sl reqs tals = Inr (sort_rows cmp (map (make_row sl grouped) reqs))"
  by (simp add: compare_rows_def)

lemma compare_srows_Inr:
  "page2Grouped tals = Inr grouped \<Longrightarrow>
   compare_srows cmp isr sl reqs tals = Inr (sort_rows cmp (map (make_srow isr sl grouped) reqs))"
  by (simp add: compare_srows_def)

lemma mset_map_sort_rows: "mset (map f (sort_rows cmp rows)) = mset (map f rows)"
  using mset_sort_rows[of cmp rows] by (metis mset_map)

text \<open>
  C5. In both versions the table has one row per required record, with the mark, the
  required quantity and the required diameter of the record, and the difference of every
  row is its tally minus its (effective) required quantity; in the version with a section
  view the effective required quantity is the required one, doubled when the row is in
  section view. A row whose mark has no tally group has tally 0, extracted diameter
  \<^verbatim>\<open>N/A\<close>, no diameter match, and a difference of 0 minus the (effective) required
  quantity. When the group exists the row shows its diameter, and the diameters match
  exactly when the two strings are equal.
\<close>

theorem rows_without_and_with_group:
  assumes g: "page2Grouped tals = Inr grouped"
  shows "(\<exists>rows. compare_rows cmp sl reqs tals = Inr rows
            \<and> mset (map (\<lambda>row. (mark row, required row, requiredDiameter row)) rows)
                = mset (map (\<lambda>item. (p1_mark item, p1_required item, p1_diameter item)) reqs)
            \<and> (\<forall>row \<in> set rows.
                 diff row = js_sub (tally row) (required row)
               \<and> (grouped (mark row) = None \<longrightarrow>
                    tally row = Fin 0 \<and> extractedDiameter row = js ''N/A'' \<and> \<not> diameterMatch row
                    \<and> diff row = js_sub (Fin 0) (required row))
               \<and> (\<forall>e. grouped (mark row) = Some e \<longrightarrow>
                    tally row = (if sl then round_half (g_total e) else g_total e)
                    \<and> extractedDiameter row = g_diameter e
                    \<and> (diameterMatch row \<longleftrightarrow> g_diameter e = requiredDiameter row))))
       \<and> (\<exists>rows. compare_srows cmp isr sl reqs tals = Inr rows
            \<and> mset (map (\<lambda>row. (mark row, required row, requiredDiameter row)) rows)
                = mset (map (\<lambda>item. (p1_mark item, p1_required item, p1_diameter item)) reqs)
            \<and> (\<forall>row \<in> set rows.
                 inSection row = (case isr (mark row) of Some b \<Rightarrow> b | None \<Rightarrow> sl)
               \<and> effectiveRequired row
                   = (if inSection row then js_times2 (required row) else required row)
               \<and> diff row = js_sub (tally row) (effectiveRequired row)
               \<and> (grouped (mark row) = None \<longrightarrow>
                    tally row = Fin 0 \<and> extractedDiameter row = js ''N/A'' \<and> \<not> diameterMatch row
                    \<and> diff row = js_sub (Fin 0) (effectiveRequired row))
               \<and> (\<forall>e. grouped (mark row) = Some e \<longrightarrow>
                    tally row = g_total e
                    \<and> extractedDiameter row = g_diameter e
                    \<and> (diameterMatch row \<longleftrightarrow> g_diameter e = requiredDiameter row))))"
proof (intro conjI)
  let ?rows = "map (make_row sl grouped) reqs"
  have m: "mset (map (\<lambda>row. (mark row, required row, requiredDiameter row)) (sort_rows cmp ?rows))
      = mset (map (\<lambda>item. (p1_mark item, p1_required item, p1_diameter item)) reqs)"
    unfolding mset_map_sort_rows by (simp add: comp_def make_row_fields)
  have r: "\<forall>row \<in> set (sort_rows cmp ?rows).
                 diff row = js_sub (tally row) (required row)
               \<and> (grouped (mark row) = None \<longrightarrow>
                    tally row = Fin 0 \<and> extractedDiameter row = js ''N/A'' \<and> \<not> diameterMatch row
                    \<and> diff row = js_sub (Fin 0) (required row))
               \<and> (\<forall>e. grouped (mark row) = Some e \<longrightarrow>
                    tally row = (if sl then round_half (g_total e) else g_total e)
                    \<and> extractedDiameter row = g_diameter e
                    \<and> (diameterMatch row \<longleftrightarrow> g_diameter e = requiredDiameter row))"
    by (auto simp: set_sort_rows make_row_fields Let_def round_half_Fin)
  show "\<exists>rows. compare_rows cmp sl reqs tals = Inr rows
            \<and> mset (map (\<lambda>row. (mark row, required row, requiredDiameter row)) rows)
                = mset (map (\<lambda>item. (p1_mark item, p1_required item, p1_diameter item)) reqs)
            \<and> (\<forall>row \<in> set rows.
                 diff row = js_sub (tally row) (required row)
               \<and> (grouped (mark row) = None \<longrightarrow>
                    tally row = Fin 0 \<and> extractedDiameter row = js ''N/A'' \<and> \<not> diameterMatch row
                    \<and> diff row = js_sub (Fin 0) (required row))
               \<and> (\<forall>e. grouped (mark row) = Some e \<longrightarrow>
                    tally row = (if sl then round_half (g_total e) else g_total e)
                    \<and> extractedDiameter row = g_diameter e
                    \<and> (diameterMatch row \<longleftrightarrow> g_diameter e = requiredDiameter row)))"
    unfolding compare_rows_Inr[OF g] using m r by blast
next
  let ?rows = "map (make_srow isr sl grouped) reqs"
  have m: "mset (map (\<lambda>row. (mark row, required row, requiredDiameter row)) (sort_rows cmp ?rows))
      = mset (map (\<lambda>item. (p1_mark item, p1_required item, p1_diameter item)) reqs)"
    unfolding mset_map_sort_rows by (simp add: comp_def make_srow_fields)
  have r: "\<forall>row \<in> set (sort_rows cmp ?rows).
                 inSection row = (case isr (mark row) of Some b \<Rightarrow> b | None \<Rightarrow> sl)
               \<and> effectiveRequired row
                   = (if inSection row then js_times2 (required row) else required row)
               \<and> diff row = js_sub (tally row) (effectiveRequired row)
               \<and> (grouped (mark row) = None \<longrightarrow>
                    tally row = Fin 0 \<and> extractedDiameter row = js ''N/A'' \<and> \<not> diameterMatch row
                    \<and> diff row = js_sub (Fin 0) (effectiveRequired row))
               \<and> (\<forall>e. grouped (mark row) = Some e \<longrightarrow>
                    tally row = g_total e
                    \<and> extractedDiameter row = g_diameter e
                    \<and> (diameterMatch row \<longleftrightarrow> g_diameter e = requiredDiameter row))"
    by (auto simp: set_sort_rows make_srow_fields)
  show "\<exists>rows. compare_srows cmp isr sl reqs tals = Inr rows
            \<and> mset (map (\<lambda>row. (mark row, required row, requiredDiameter row)) rows)
                = mset (map (\<lambda>item. (p1_mark item, p1_required item, p1_diameter item)) reqs)
            \<and> (\<forall>row \<in> set rows.
                 inSection row = (case isr (mark row) of Some b \<Rightarrow> b | None \<Rightarrow> sl)
               \<and> effectiveRequired row
                   = (if inSection row then js_times2 (required row) else required row)
               \<and> diff row = js_sub (tally row) (effectiveRequired row)
               \<and> (grouped (mark row) = None \<longrightarrow>
                    tally row = Fin 0 \<and> extractedDiameter row = js ''N/A'' \<and> \<not> diameterMatch row
                    \<and> diff row = js_sub (Fin 0) (effectiveRequired row))
               \<and> (\<forall>e. grouped (mark row) = Some e \<longrightarrow>
                    tally row = g_total e
                    \<and> extractedDiameter row = g_diameter e
                    \<and> (diameterMatch row \<longleftrightarrow> g_diameter e = requiredDiameter row)))"
    unfolding compare_srows_Inr[OF g] using m r by blast
qed

theorem rows_without_and_with_group_witness:
  "page2Grouped [\<lparr>p2_count = Fin 15, p2_diameter = js ''R10'', p2_mark = js ''CL1''\<rparr>,
                 \<lparr>p2_count = Fin 13, p2_diameter = js ''R10'', p2_mark = js ''CL1''\<rparr>]
     = Inr [js ''CL1'' \<mapsto> \<lparr>g_total = Fin 28, g_diameter = js ''R10''\<rparr>]
   \<and> compare_rows ordinal_compare False
        [\<lparr>p1_required = Fin 2, p1_diameter = js ''Y16'', p1_mark = js ''LS1''\<rparr>,
         \<lparr>p1_required = Fin 60, p1_diameter = js ''Y12'', p1_mark = js ''CL1''\<rparr>]
        [\<lparr>p2_count = Fin 15, p2_diameter = js ''R10'', p2_mark = js ''CL1''\<rparr>,
         \<lparr>p2_count = Fin 13, p2_diameter = js ''R10'', p2_mark = js ''CL1''\<rparr>]
     = Inr [\<lparr>mark = js ''CL1'', required = Fin 60, requiredDiameter = js ''Y12'', tally = Fin 28,
             extractedDiameter = js ''R10'', diff = Fin (- 32), diameterMatch = False\<rparr>,
            \<lparr>mark = js ''LS1'', required = Fin 2, requiredDiameter = js ''Y16'', tally = Fin 0,
             extractedDiameter = js ''N/A'', diff = Fin (- 2), diameterMatch = False\<rparr>]
   \<and> compare_srows ordinal_compare [js ''LS1'' \<mapsto> True] False
        [\<lparr>p1_required = Fin 2, p1_diameter = js ''Y16'', p1_mark = js ''LS1''\<rparr>,
         \<lparr>p1_required = Fin 60, p1_diameter = js ''Y12'', p1_mark = js ''CL1''\<rparr>]
        [\<lparr>p2_count = Fin 15, p2_diameter = js ''R10'', p2_mark = js ''CL1''\<rparr>,
         \<lparr>p2_count = Fin 13, p2_diameter = js ''R10'', p2_mark = js ''CL1''\<rparr>]
     = Inr [\<lparr>mark = js ''CL1'', required = Fin 60, requiredDiameter = js ''Y12'', tally = Fin 28,
             extractedDiameter = js ''R10'', diff = Fin (- 32), diameterMatch = False,
             inSection = False, effectiveRequired = Fin 60\<rparr>,
            \<lparr>mark = js ''LS1'', required = Fin 2, requiredDiameter = js ''Y16'', tally = Fin 0,
             extractedDiameter = js ''N/A'', diff = Fin (- 4), diameterMatch = False,
             inSection = True, effectiveRequired = Fin 4\<rparr>]"
proof -
  have g: "page2Grouped [\<lparr>p2_count = Fin 15, p2_diameter = js ''R10'', p2_mark = js ''CL1''\<rparr>,
                 \<lparr>p2_count = Fin 13, p2_diameter = js ''R10'', p2_mark = js ''CL1''\<rparr>]
     = Inr [js ''CL1'' \<mapsto> \<lparr>g_total = Fin 28, g_diameter = js ''R10''\<rparr>]"
    by (simp add: page2Grouped_def group_item_def Let_def to_double_exact)
  show ?thesis
    using rows_without_and_with_group [OF g, where cmp = ordinal_compare and sl = False
        and reqs = "[\<lparr>p1_required = Fin 2, p1_diameter = js ''Y16'', p1_mark = js ''LS1''\<rparr>,
         \<lparr>p1_required = Fin 60, p1_diameter = js ''Y12'', p1_mark = js ''CL1''\<rparr>]"
        and isr = "[js ''LS1'' \<mapsto> True]"] g
    by (simp add: compare_rows_def compare_srows_def sort_rows_def make_row_def make_srow_def
          Let_def js_def js_sub_def to_double_exact)
qed

text \<open>
  C4. With \<^verbatim>\<open>sectionAndLayout\<close> set, in the version that halves the tally, the tally of
  every row is \<^verbatim>\<open>Math.round\<close> of half the total of its group, that is the half rounded
  up, and 0 without a group; the difference is the tally minus the required quantity.
  A total of 28 against 60 required gives a tally of 14 and a difference of -46.
\<close>

theorem halved_tally:
  assumes g: "page2Grouped tals = Inr grouped"
  shows "\<exists>rows. compare_rows cmp True reqs tals = Inr rows
           \<and> (\<forall>row \<in> set rows.
                tally row = (case grouped (mark row) of
                               None \<Rightarrow> Fin 0
                             | Some e \<Rightarrow> round_half (g_total e))
              \<and> diff row = js_sub (tally row) (required row)
              \<and> (\<forall>e t. grouped (mark row) = Some e \<and> g_total e = Fin t \<longrightarrow>
                    tally row = Fin (Math_round (of_int t / 2))
                    \<and> (\<exists>n. tally row = Fin n \<and> t \<le> 2 * n \<and> 2 * n \<le> t + 1)))"
  by (auto simp: compare_rows_Inr[OF g] set_sort_rows make_row_fields Let_def round_half_Fin
           Math_round_half split: option.splits)

theorem halved_tally_witness:
  "page2Grouped [\<lparr>p2_count = Fin 15, p2_diameter = js ''R10'', p2_mark = js ''CL1''\<rparr>,
                 \<lparr>p2_count = Fin 13, p2_diameter = js ''R10'', p2_mark = js ''CL1''\<rparr>]
     = Inr [js ''CL1'' \<mapsto> \<lparr>g_total = Fin 28, g_diameter = js ''R10''\<rparr>]
   \<and> compare_rows ordinal_compare True
        [\<lparr>p1_required = Fin 60, p1_diameter = js ''Y12'', p1_mark = js ''CL1''\<rparr>]
        [\<lparr>p2_count = Fin 15, p2_diameter = js ''R10'', p2_mark = js ''CL1''\<rparr>,
         \<lparr>p2_count = Fin 13, p2_diameter = js ''R10'', p2_mark = js ''CL1''\<rparr>]
     = Inr [\<lparr>mark = js ''CL1'', required = Fin 60, requiredDiameter = js ''Y12'', tally = Fin 14,
             extractedDiameter = js ''R10'', diff = Fin (- 46), diameterMatch = False\<rparr>]"
proof -
  have g: "page2Grouped [\<lparr>p2_count = Fin 15, p2_diameter = js ''R10'', p2_mark = js ''CL1''\<rparr>,
                 \<lparr>p2_count = Fin 13, p2_diameter = js ''R10'', p2_mark = js ''CL1''\<rparr>]
     = Inr [js ''CL1'' \<mapsto> \<lparr>g_total = Fin 28, g_diameter = js ''R10''\<rparr>]"
    by (simp add: page2Grouped_def group_item_def Let_def to_double_exact)
  show ?thesis
    using halved_tally [OF g, where cmp = ordinal_compare
        and reqs = "[\<lparr>p1_required = Fin 60, p1_diameter = js ''Y12'', p1_mark = js ''CL1''\<rparr>]"] g
    by (simp add: compare_rows_def sort_rows_def make_row_def Let_def js_def round_half_Fin
          js_sub_def to_double_exact)
qed

section \<open>One row per required record\<close>

lemma page2Grouped_returns: "\<exists>grouped. page2Grouped tals = Inr grouped"
  by (simp add: page2Grouped_def forEach_group_closed)

text \<open>
  C1, as stated, fails: \<^verbatim>\<open>page1Data.map\<close> makes one row per required record and nothing
  removes a repeated mark. A required text with two lines for the mark A1 gives two rows
  with the mark A1.
\<close>

theorem duplicate_required_marks_counterexample:
  "map_option (map_sum id (map mark \<circ> results))
     (handleCompare ordinal_compare
        \<lparr>text1 = js ''1 Y12 1 1 A1 2 Y12 1 1 A1'', text2 = js ''1Y12-A1'', results = [],
         sectionAndLayout = False, ignoredRows = Map.empty\<rparr>)
   = Some (Inr [js ''A1'', js ''A1''])"
  by (simp add: handleCompare_def extractPage1Data_def extractPage2Data_def page1_pattern_def
        page2_pattern_def run_extract compare_rows_def page2Grouped_def group_item_def
        sort_rows_def make_row_def Let_def)

text \<open>
  C1, amended. In both versions the table has exactly one row per required record: the
  marks of the rows are the marks of the required list with the same multiplicities.
  So every required mark appears, a mark that occurs only on the tally side never does,
  and the marks of the rows are unique exactly when those of the required list are.
\<close>

theorem rows_cover_required_records:
  "(\<exists>rows. compare_rows cmp sl reqs tals = Inr rows
      \<and> mset (map mark rows) = mset (map p1_mark reqs)
      \<and> length rows = length reqs
      \<and> set (map mark rows) = set (map p1_mark reqs)
      \<and> distinct (map mark rows) = distinct (map p1_mark reqs))
   \<and> (\<exists>rows. compare_srows cmp isr sl reqs tals = Inr rows
      \<and> mset (map mark rows) = mset (map p1_mark reqs)
      \<and> length rows = length reqs
      \<and> set (map mark rows) = set (map p1_mark reqs)
      \<and> distinct (map mark rows) = distinct (map p1_mark reqs))"
proof -
  obtain g where g: "page2Grouped tals = Inr g"
    using page2Grouped_returns by blast
  have m1: "mset (map mark (sort_rows cmp (map (make_row sl g) reqs))) = mset (map p1_mark reqs)"
    by (simp add: mset_sort_rows make_row_fields(1) multiset.map_comp comp_def)
  have m2: "mset (map mark (sort_rows cmp (map (make_srow isr sl g) reqs))) = mset (map p1_mark reqs)"
    by (simp add: mset_sort_rows make_srow_fields(1) multiset.map_comp comp_def)
  have l1: "length (sort_rows cmp (map (make_row sl g) reqs)) = length reqs"
    using mset_sort_rows[of cmp "map (make_row sl g) reqs"] by (metis length_map size_mset)
  have l2: "length (sort_rows cmp (map (make_srow isr sl g) reqs)) = length reqs"
    using mset_sort_rows[of cmp "map (make_srow isr sl g) reqs"] by (metis length_map size_mset)
  show ?thesis
    using m1 m2 l1 l2 mset_eq_setD[OF m1] mset_eq_setD[OF m2]
      mset_eq_imp_distinct_iff[OF m1] mset_eq_imp_distinct_iff[OF m2]
    by (simp add: compare_rows_Inr[OF g] compare_srows_Inr[OF g])
qed

section \<open>The order of the rows\<close>

lemma ordinal_compare_sign: "(ordinal_compare a b < 0) = (0 < ordinal_compare b a)"
  by (induction a b rule: ordinal_compare.induct) auto

lemma ordinal_compare_trans:
  "ordinal_compare a b \<le> 0 \<Longrightarrow> ordinal_compare b c \<le> 0 \<Longrightarrow> ordinal_compare a c \<le> 0"
proof (induction a b arbitrary: c rule: ordinal_compare.induct)
  case 1
  then show ?case by simp
next
  case (2 b bs)
  show ?case by (cases c) simp_all
next
  case (3 a as)
  then show ?case by simp
next
  case (4 a as b bs)
  show ?case
  proof (cases c)
    case Nil
    with "4.prems" show ?thesis by simp
  next
    case (Cons x xs)
    from "4.prems"(1) have ab: "a < b \<or> (a = b \<and> ordinal_compare as bs \<le> 0)"
      by (simp split: if_splits)
    from "4.prems"(2) Cons have bx: "b < x \<or> (b = x \<and> ordinal_compare bs xs \<le> 0)"
      by (simp split: if_splits)
    show ?thesis
    proof (cases "a = b \<and> b = x")
      case True
      with ab bx have "ordinal_compare as bs \<le> 0" "ordinal_compare bs xs \<le> 0" by auto
      with "4.IH"[of xs] True have "ordinal_compare as xs \<le> 0" by simp
      with True Cons show ?thesis by simp
    next
      case False
      with ab bx have "a < x" by auto
      with Cons show ?thesis by simp
    qed
  qed
qed

lemma consistent_ordinal_compare: "consistent_comparator ordinal_compare"
  unfolding consistent_comparator_def
  using ordinal_compare_sign ordinal_compare_trans by blast

lemma consistent_localeCompare_cs: "consistent_comparator localeCompare_cs"
  unfolding consistent_comparator_def localeCompare_cs_def
  using ordinal_compare_sign ordinal_compare_trans by blast

lemma set_insert_row: "set (insert_row cmp a bs) = insert a (set bs)"
  by (induction bs) auto

lemma sorted_insert_row:
  assumes c: "consistent_comparator cmp"
  shows "sorted_wrt (\<lambda>x y. cmp (mark x) (mark y) \<le> 0) bs \<Longrightarrow>
         sorted_wrt (\<lambda>x y. cmp (mark x) (mark y) \<le> 0) (insert_row cmp a bs)"
proof (induction bs)
  case Nil
  show ?case by simp
next
  case (Cons b bs)
  have flip: "\<not> cmp (mark a) (mark b) < 0 \<Longrightarrow> cmp (mark b) (mark a) \<le> 0"
    using c unfolding consistent_comparator_def by (metis not_le)
  have tr: "\<And>x. cmp (mark a) (mark b) < 0 \<Longrightarrow> cmp (mark b) (mark x) \<le> 0 \<Longrightarrow> cmp (mark a) (mark x) \<le> 0"
    using c unfolding consistent_comparator_def by (meson less_imp_le)
  show ?case
  proof (cases "cmp (mark a) (mark b) < 0")
    case True
    then show ?thesis using Cons.prems tr by auto
  next
    case False
    then show ?thesis using Cons flip by (auto simp: set_insert_row)
  qed
qed

lemma sorted_foldl_insert_row:
  assumes c: "consistent_comparator cmp"
  shows "sorted_wrt (\<lambda>x y. cmp (mark x) (mark y) \<le> 0) acc \<Longrightarrow>
         sorted_wrt (\<lambda>x y. cmp (mark x) (mark y) \<le> 0)
           (foldl (\<lambda>sorted a. insert_row cmp a sorted) acc rows)"
  by (induction rows arbitrary: acc) (simp_all add: sorted_insert_row[OF c])

lemma sorted_sort_rows:
  "consistent_comparator cmp \<Longrightarrow>
   sorted_wrt (\<lambda>x y. cmp (mark x) (mark y) \<le> 0) (sort_rows cmp rows)"
  by (simp add: sort_rows_def sorted_foldl_insert_row)

lemma insert_row_agree:
  "\<forall>b \<in> set bs. (cmp (mark a) (mark b) < 0) = (cmp' (mark a) (mark b) < 0) \<Longrightarrow>
   insert_row cmp a bs = insert_row cmp' a bs"
  by (induction bs) auto

lemma set_foldl_insert_row:
  "set (foldl (\<lambda>sorted a. insert_row cmp a sorted) acc rows) = set acc \<union> set rows"
  by (induction rows arbitrary: acc) (auto simp: set_insert_row)

lemma foldl_insert_row_agree:
  "\<forall>a \<in> set acc \<union> set rows. \<forall>b \<in> set acc \<union> set rows.
      (cmp (mark a) (mark b) < 0) = (cmp' (mark a) (mark b) < 0) \<Longrightarrow>
   foldl (\<lambda>sorted a. insert_row cmp a sorted) acc rows
     = foldl (\<lambda>sorted a. insert_row cmp' a sorted) acc rows"
proof (induction rows arbitrary: acc)
  case Nil
  show ?case by simp
next
  case (Cons r rows)
  have 1: "insert_row cmp r acc = insert_row cmp' r acc"
    using Cons.prems by (intro insert_row_agree) auto
  have 2: "\<forall>a \<in> set (insert_row cmp' r acc) \<union> set rows. \<forall>b \<in> set (insert_row cmp' r acc) \<union> set rows.
      (cmp (mark a) (mark b) < 0) = (cmp' (mark a) (mark b) < 0)"
    using Cons.prems by (auto simp: set_insert_row)
  show ?case using Cons.IH[OF 2] 1 by simp
qed

lemma sort_rows_agree:
  "\<forall>a \<in> set rows. \<forall>b \<in> set rows. (cmp (mark a) (mark b) < 0) = (cmp' (mark a) (mark b) < 0) \<Longrightarrow>
   sort_rows cmp rows = sort_rows cmp' rows"
  unfolding sort_rows_def by (rule foldl_insert_row_agree) simp

lemma comparator_refl: "consistent_comparator cmp \<Longrightarrow> cmp a a = 0"
  unfolding consistent_comparator_def by (metis less_asym linorder_neqE_linordered_idom)

lemma filter_mark_insert_row:
  assumes c: "consistent_comparator cmp"
  shows "sorted_wrt (\<lambda>x y. cmp (mark x) (mark y) \<le> 0) bs \<Longrightarrow>
         filter (\<lambda>r. mark r = m) (insert_row cmp a bs)
           = filter (\<lambda>r. mark r = m) bs @ (if mark a = m then [a] else [])"
proof (induction bs)
  case Nil
  show ?case by simp
next
  case (Cons b bs)
  show ?case
  proof (cases "cmp (mark a) (mark b) < 0")
    case True
    have "mark a = m \<Longrightarrow> filter (\<lambda>r. mark r = m) (b # bs) = []"
    proof -
      assume am: "mark a = m"
      have "\<And>x. x \<in> set (b # bs) \<Longrightarrow> mark x \<noteq> m"
      proof
        fix x assume x: "x \<in> set (b # bs)" and xm: "mark x = m"
        have "cmp (mark b) (mark x) \<le> 0"
          using x Cons.prems comparator_refl[OF c] by auto
        then have "cmp (mark b) (mark a) \<le> 0" using am xm by simp
        moreover have "0 < cmp (mark b) (mark a)"
          using True c unfolding consistent_comparator_def by blast
        ultimately show False by simp
      qed
      then show ?thesis by (simp add: filter_empty_conv)
    qed
    with True show ?thesis by auto
  next
    case False
    with Cons show ?thesis by simp
  qed
qed

lemma filter_mark_foldl_insert_row:
  assumes c: "consistent_comparator cmp"
  shows "sorted_wrt (\<lambda>x y. cmp (mark x) (mark y) \<le> 0) acc \<Longrightarrow>
         filter (\<lambda>r. mark r = m) (foldl (\<lambda>sorted a. insert_row cmp a sorted) acc rows)
           = filter (\<lambda>r. mark r = m) acc @ filter (\<lambda>r. mark r = m) rows"
proof (induction rows arbitrary: acc)
  case Nil
  show ?case by simp
next
  case (Cons r rows)
  have s: "sorted_wrt (\<lambda>x y. cmp (mark x) (mark y) \<le> 0) (insert_row cmp r acc)"
    using sorted_insert_row[OF c Cons.prems] .
  show ?case
    using Cons.IH[OF s] filter_mark_insert_row[OF c Cons.prems, of m r] by simp
qed

lemma sort_rows_stable:
  "consistent_comparator cmp \<Longrightarrow>
   filter (\<lambda>r. mark r = m) (sort_rows cmp rows) = filter (\<lambda>r. mark r = m) rows"
  by (simp add: sort_rows_def filter_mark_foldl_insert_row)

lemma sort_rows_by_localeCompare:
  assumes c: "consistent_comparator cmp"
  shows "sorted_wrt (\<lambda>a b. cmp (mark a) (mark b) \<le> 0) (sort_rows cmp rows)
       \<and> (\<forall>m. filter (\<lambda>r. mark r = m) (sort_rows cmp rows) = filter (\<lambda>r. mark r = m) rows)
       \<and> ((\<forall>a \<in> set rows. \<forall>b \<in> set rows.
               (cmp (mark a) (mark b) < 0) = (ordinal_compare (mark a) (mark b) < 0))
            \<longrightarrow> sorted_wrt (\<lambda>a b. ordinal_compare (mark a) (mark b) \<le> 0) (sort_rows cmp rows))"
proof -
  have "(\<forall>a \<in> set rows. \<forall>b \<in> set rows.
               (cmp (mark a) (mark b) < 0) = (ordinal_compare (mark a) (mark b) < 0))
        \<Longrightarrow> sorted_wrt (\<lambda>a b. ordinal_compare (mark a) (mark b) \<le> 0) (sort_rows cmp rows)"
    using sort_rows_agree[of rows cmp ordinal_compare]
      sorted_sort_rows[OF consistent_ordinal_compare, of rows] by simp
  then show ?thesis
    using sorted_sort_rows[OF c] sort_rows_stable[OF c] by blast
qed

text \<open>
  C6, as stated, fails: the rows are sorted with \<^verbatim>\<open>localeCompare\<close>, which is
  locale-sensitive. In an engine whose default locale is Czech the mark CH1 sorts after
  D1, while ordinal comparison puts CH1 first.
\<close>

theorem locale_sensitive_order_counterexample:
  "map_option (map_sum id (map mark \<circ> results))
     (handleCompare localeCompare_cs
        \<lparr>text1 = js ''1 Y12 1 1 CH1 2 Y12 1 1 D1'', text2 = js ''1Y12-D1'', results = [],
         sectionAndLayout = False, ignoredRows = Map.empty\<rparr>)
     = Some (Inr [js ''D1'', js ''CH1''])
   \<and> ordinal_compare (js ''D1'') (js ''CH1'') = 1"
  by (simp add: handleCompare_def extractPage1Data_def extractPage2Data_def page1_pattern_def
        page2_pattern_def run_extract compare_rows_def page2Grouped_def group_item_def
        sort_rows_def make_row_def Let_def localeCompare_cs_def)

text \<open>
  C6, amended. For every consistent comparator that \<^verbatim>\<open>localeCompare\<close> is, the rows are
  sorted ascending by mark under that comparator, rows with the same mark staying in the
  order of the required list; when the comparator orders the marks of the required list
  as ordinal comparison does, the rows are in ordinal order. Under ordinal comparison the
  mark A10 sorts before A9 (the comparison is not numeric).
\<close>

theorem rows_sorted_by_localeCompare:
  assumes c: "consistent_comparator cmp"
  shows "(\<exists>rows. compare_rows cmp sl reqs tals = Inr rows
            \<and> sorted_wrt (\<lambda>a b. cmp (mark a) (mark b) \<le> 0) rows
            \<and> (\<forall>m. map required (filter (\<lambda>r. mark r = m) rows)
                      = map p1_required (filter (\<lambda>i. p1_mark i = m) reqs))
            \<and> ((\<forall>a \<in> set reqs. \<forall>b \<in> set reqs.
                   (cmp (p1_mark a) (p1_mark b) < 0) = (ordinal_compare (p1_mark a) (p1_mark b) < 0))
                \<longrightarrow> sorted_wrt (\<lambda>a b. ordinal_compare (mark a) (mark b) \<le> 0) rows))
       \<and> (\<exists>rows. compare_srows cmp isr sl reqs tals = Inr rows
            \<and> sorted_wrt (\<lambda>a b. cmp (mark a) (mark b) \<le> 0) rows
            \<and> (\<forall>m. map required (filter (\<lambda>r. mark r = m) rows)
                      = map p1_required (filter (\<lambda>i. p1_mark i = m) reqs))
            \<and> ((\<forall>a \<in> set reqs. \<forall>b \<in> set reqs.
                   (cmp (p1_mark a) (p1_mark b) < 0) = (ordinal_compare (p1_mark a) (p1_mark b) < 0))
                \<longrightarrow> sorted_wrt (\<lambda>a b. ordinal_compare (mark a) (mark b) \<le> 0) rows))"
proof -
  obtain g where g: "page2Grouped tals = Inr g"
    using page2Grouped_returns by blast
  let ?rows = "map (make_row sl g) reqs"
  let ?srows = "map (make_srow isr sl g) reqs"
  let ?agree = "\<forall>a \<in> set reqs. \<forall>b \<in> set reqs.
                   (cmp (p1_mark a) (p1_mark b) < 0) = (ordinal_compare (p1_mark a) (p1_mark b) < 0)"
  have a1: "?agree \<Longrightarrow> \<forall>a \<in> set ?rows. \<forall>b \<in> set ?rows.
               (cmp (mark a) (mark b) < 0) = (ordinal_compare (mark a) (mark b) < 0)"
    by (simp add: make_row_fields)
  have a2: "?agree \<Longrightarrow> \<forall>a \<in> set ?srows. \<forall>b \<in> set ?srows.
               (cmp (mark a) (mark b) < 0) = (ordinal_compare (mark a) (mark b) < 0)"
    by (simp add: make_srow_fields)
  have s1: "\<And>m. map required (filter (\<lambda>r. mark r = m) ?rows)
                  = map p1_required (filter (\<lambda>i. p1_mark i = m) reqs)"
    by (simp add: filter_map comp_def make_row_fields)
  have s2: "\<And>m. map required (filter (\<lambda>r. mark r = m) ?srows)
                  = map p1_required (filter (\<lambda>i. p1_mark i = m) reqs)"
    by (simp add: filter_map comp_def make_srow_fields)
  have r1: "sorted_wrt (\<lambda>a b. cmp (mark a) (mark b) \<le> 0) (sort_rows cmp ?rows)
            \<and> (\<forall>m. map required (filter (\<lambda>r. mark r = m) (sort_rows cmp ?rows))
                      = map p1_required (filter (\<lambda>i. p1_mark i = m) reqs))
            \<and> (?agree \<longrightarrow> sorted_wrt (\<lambda>a b. ordinal_compare (mark a) (mark b) \<le> 0) (sort_rows cmp ?rows))"
    using sort_rows_by_localeCompare[OF c, of ?rows] a1 s1 by auto
  have r2: "sorted_wrt (\<lambda>a b. cmp (mark a) (mark b) \<le> 0) (sort_rows cmp ?srows)
            \<and> (\<forall>m. map required (filter (\<lambda>r. mark r = m) (sort_rows cmp ?srows))
                      = map p1_required (filter (\<lambda>i. p1_mark i = m) reqs))
            \<and> (?agree \<longrightarrow> sorted_wrt (\<lambda>a b. ordinal_compare (mark a) (mark b) \<le> 0) (sort_rows cmp ?srows))"
    using sort_rows_by_localeCompare[OF c, of ?srows] a2 s2 by auto
  show ?thesis
    unfolding compare_rows_Inr[OF g] compare_srows_Inr[OF g] using r1 r2 by blast
qed

theorem rows_sorted_by_localeCompare_witness:
  "consistent_comparator ordinal_compare
   \<and> compare_rows ordinal_compare False
        [\<lparr>p1_required = Fin 4, p1_diameter = js ''Y16'', p1_mark = js ''A9''\<rparr>,
         \<lparr>p1_required = Fin 6, p1_diameter = js ''Y12'', p1_mark = js ''A10''\<rparr>] []
     = Inr [\<lparr>mark = js ''A10'', required = Fin 6, requiredDiameter = js ''Y12'', tally = Fin 0,
             extractedDiameter = js ''N/A'', diff = Fin (- 6), diameterMatch = False\<rparr>,
            \<lparr>mark = js ''A9'', required = Fin 4, requiredDiameter = js ''Y16'', tally = Fin 0,
             extractedDiameter = js ''N/A'', diff = Fin (- 4), diameterMatch = False\<rparr>]
   \<and> ordinal_compare (js ''A10'') (js ''A9'') = - 1"
  using rows_sorted_by_localeCompare [OF consistent_ordinal_compare, where sl = False
      and reqs = "[\<lparr>p1_required = Fin 4, p1_diameter = js ''Y16'', p1_mark = js ''A9''\<rparr>,
         \<lparr>p1_required = Fin 6, p1_diameter = js ''Y12'', p1_mark = js ''A10''\<rparr>]"
      and tals = "[]" and isr = Map.empty]
    consistent_ordinal_compare
  by (simp add: compare_rows_def page2Grouped_def sort_rows_def make_row_def Let_def js_def
        js_sub_def to_double_exact)

section \<open>The per-row section view\<close>



lemma toggleInSection_fields:
  "inSectionRows (toggleInSection st m) = (inSectionRows st)(m \<mapsto> \<not> truthy (inSectionRows st m))"
  "results (toggleInSection st m) =
     map (\<lambda>row. if mark row = m then toggled_row (\<not> truthy (inSectionRows st m)) row else row) (results st)"
  "sectionAndLayout (toggleInSection st m) = sectionAndLayout st"
  "ignoredRows (toggleInSection st m) = ignoredRows st"
  by (simp_all add: toggleInSection_def Let_def toggled_row_def)

lemma toggled_row_fields:
  "mark (toggled_row v row) = mark row"
  "required (toggled_row v row) = required row"
  "requiredDiameter (toggled_row v row) = requiredDiameter row"
  "tally (toggled_row v row) = tally row"
  "extractedDiameter (toggled_row v row) = extractedDiameter row"
  "diameterMatch (toggled_row v row) = diameterMatch row"
  "inSection (toggled_row v row) = v"
  "effectiveRequired (toggled_row v row) = (if v then js_times2 (required row) else required row)"
  "diff (toggled_row v row) = js_sub (tally row) (effectiveRequired (toggled_row v row))"
  by (simp_all add: toggled_row_def)






section \<open>Extraction and comparison always return\<close>

lemma rmatch_advances:
  "(j, g') \<in> set (rmatch r s (i, g)) \<Longrightarrow> i + min_len r \<le> j"
proof (induction r arbitrary: i g j g')
  case (Cat a b)
  from Cat.prems obtain k h where
    1: "(k, h) \<in> set (rmatch a s (i, g))" and 2: "(j, g') \<in> set (rmatch b s (k, h))"
    by auto
  from Cat.IH(1)[OF 1] Cat.IH(2)[OF 2] show ?case by simp
next
  case (Maybe r)
  then show ?case by fastforce
next
  case (Capture k r)
  then show ?case by fastforce
qed (auto simp: Let_def split: if_splits)

lemma first_match_Some:
  "first_match r s ps = Some (e, g) \<Longrightarrow> \<exists>p \<in> set ps. (e, g) \<in> set (rmatch r s (p, Map.empty))"
  by (induction ps) (auto split: list.splits)

lemma exec_Some:
  assumes "exec r s i = Some (e, g)"
  shows "i \<le> length s \<and> i + min_len r \<le> e"
proof -
  from assms obtain p where p: "p \<in> set [i ..< Suc (length s)]"
    and m: "(e, g) \<in> set (rmatch r s (p, Map.empty))"
    unfolding exec_def by (blast dest: first_match_Some)
  from rmatch_advances[OF m] p show ?thesis by auto
qed

lemma exec_loop_returns:
  assumes pos: "0 < min_len r"
  shows "\<exists>out. exec_loop r mk s i data = Some out"
proof (induction "Suc (length s) - i" arbitrary: i data rule: less_induct)
  case less
  show ?case
  proof (cases "exec r s i")
    case None
    then show ?thesis by (subst exec_loop.simps) simp
  next
    case (Some m)
    obtain e g where m: "m = (e, g)" by (cases m)
    from exec_Some[of r s i e g] Some m pos have "i \<le> length s" "i < e" by auto
    then have "Suc (length s) - e < Suc (length s) - i" by arith
    from less[OF this, of "data @ [mk g]"] obtain out where
      "exec_loop r mk s e (data @ [mk g]) = Some out" by blast
    then show ?thesis using Some m by (subst exec_loop.simps) simp
  qed
qed

lemma min_len_patterns:
  "0 < min_len page1_pattern" "0 < min_len page2_pattern" "0 < min_len page2_pattern_ws"
  by (simp_all add: page1_pattern_def page2_pattern_def page2_pattern_ws_def)

lemma extract_empty:
  "extractPage1Data [] = Some []" "extractPage2Data [] = Some []" "extractPage2Data_ws [] = Some []"
  by (simp_all add: extractPage1Data_def extractPage2Data_def extractPage2Data_ws_def
        page1_pattern_def page2_pattern_def page2_pattern_ws_def exec_loop.simps exec_def
        word_boundary_def)



text \<open>
  C9. For every text each extractor returns a sequence of records: its loop ends,
  because every match of its pattern consumes at least one code unit. The empty text
  gives the empty sequence. The comparison never throws, so \<^verbatim>\<open>handleCompare\<close> returns
  a next state from every state, in both versions.
\<close>

theorem extraction_and_comparison_return:
  "(\<exists>items. extractPage1Data text = Some items)
   \<and> (\<exists>items. extractPage2Data text = Some items)
   \<and> (\<exists>items. extractPage2Data_ws text = Some items)
   \<and> extractPage1Data [] = Some []
   \<and> extractPage2Data [] = Some []
   \<and> extractPage2Data_ws [] = Some []
   \<and> (\<exists>rows. compare_rows cmp sl reqs tals = Inr rows)
   \<and> (\<exists>rows. compare_srows cmp isr sl reqs tals = Inr rows)
   \<and> (\<exists>st'. handleCompare cmp st = Some (Inr st'))
   \<and> (\<exists>st'. handleCompare_sv cmp sv = Some (Inr st'))"
proof -
  obtain a where a: "extractPage1Data text = Some a"
    unfolding extractPage1Data_def using exec_loop_returns[OF min_len_patterns(1)] by blast
  obtain b where b: "extractPage2Data text = Some b"
    unfolding extractPage2Data_def using exec_loop_returns[OF min_len_patterns(2)] by blast
  obtain c where c: "extractPage2Data_ws text = Some c"
    unfolding extractPage2Data_ws_def using exec_loop_returns[OF min_len_patterns(3)] by blast
  obtain g where g: "page2Grouped tals = Inr g"
    using page2Grouped_returns by blast
  have rows: "\<exists>rows. compare_rows cmp sl reqs tals = Inr rows"
    by (simp add: compare_rows_def g)
  have srows: "\<exists>rows. compare_srows cmp isr sl reqs tals = Inr rows"
    by (simp add: compare_srows_def g)
  obtain a1 where a1: "extractPage1Data (text1 st) = Some a1"
    unfolding extractPage1Data_def using exec_loop_returns[OF min_len_patterns(1)] by blast
  obtain b1 where b1: "extractPage2Data (text2 st) = Some b1"
    unfolding extractPage2Data_def using exec_loop_returns[OF min_len_patterns(2)] by blast
  obtain g1 where g1: "page2Grouped b1 = Inr g1"
    using page2Grouped_returns by blast
  have h: "\<exists>st'. handleCompare cmp st = Some (Inr st')"
    by (simp add: handleCompare_def a1 b1 compare_rows_def g1)
  obtain a2 where a2: "extractPage1Data (text1 sv) = Some a2"
    unfolding extractPage1Data_def using exec_loop_returns[OF min_len_patterns(1)] by blast
  obtain c2 where c2: "extractPage2Data_ws (text2 sv) = Some c2"
    unfolding extractPage2Data_ws_def using exec_loop_returns[OF min_len_patterns(3)] by blast
  obtain g2 where g2: "page2Grouped c2 = Inr g2"
    using page2Grouped_returns by blast
  have hs: "\<exists>st'. handleCompare_sv cmp sv = Some (Inr st')"
    by (simp add: handleCompare_sv_def a2 c2 compare_srows_def g2)
  show ?thesis
    using a b c rows srows h hs by (simp add: extract_empty)
qed

section \<open>The strict and the whitespace-tolerant tally pattern\<close>

text \<open>On a strictly spaced text a \<^verbatim>\<open>\s*\<close> of the tolerant pattern matches nothing, or
  what follows it cannot match either.\<close>

lemma strictly_spacedD:
  assumes "strictly_spaced s" "Suc q < length s"
  shows "is_space (s ! q) \<Longrightarrow> \<not> is_upper (s ! Suc q) \<and> s ! Suc q \<noteq> 45"
    and "s ! q = 45 \<Longrightarrow> \<not> is_space (s ! Suc q)"
proof -
  have "q < length (zip s (tl s))" using assms(2) by simp
  moreover have "zip s (tl s) ! q = (s ! q, s ! Suc q)"
    using assms(2) by (simp add: nth_tl)
  ultimately have "\<not> (is_space (s ! q) \<and> (is_upper (s ! Suc q) \<or> s ! Suc q = 45))
      \<and> \<not> (s ! q = 45 \<and> is_space (s ! Suc q))"
    using assms(1) unfolding strictly_spaced_def list_all_length by fastforce
  then show "is_space (s ! q) \<Longrightarrow> \<not> is_upper (s ! Suc q) \<and> s ! Suc q \<noteq> 45"
    and "s ! q = 45 \<Longrightarrow> \<not> is_space (s ! Suc q)" by auto
qed

lemma space_not_upper_dash: "is_space c \<Longrightarrow> \<not> is_upper c \<and> c \<noteq> 45"
  by (auto simp: is_space_def is_upper_def)

lemma rmatch_Star:
  "rmatch (Star c) s (p, g) =
     map (\<lambda>k. (p + k, g)) (rev [0 ..< Suc (length (takeWhile (in_cls c) (drop p s)))])"
  by (simp add: Let_def)

lemma run_positions:
  assumes "k < length (takeWhile P (drop p s))"
  shows "p + k < length s \<and> P (s ! (p + k))"
proof -
  have l: "length (takeWhile P (drop p s)) \<le> length (drop p s)"
    by (rule length_takeWhile_le)
  then have a: "p + k < length s" using assms by simp
  have "takeWhile P (drop p s) ! k = drop p s ! k"
    using assms by (rule takeWhile_nth)
  moreover have "P (takeWhile P (drop p s) ! k)"
    using assms by (meson nth_mem set_takeWhileD)
  ultimately show ?thesis using a by simp
qed

lemma run_end:
  assumes "p + length (takeWhile P (drop p s)) < length s"
  shows "\<not> P (s ! (p + length (takeWhile P (drop p s))))"
proof -
  let ?n = "length (takeWhile P (drop p s))"
  have "?n < length (drop p s)" using assms by simp
  then have "\<not> P (drop p s ! ?n)" by (rule nth_length_takeWhile)
  then show ?thesis using assms by simp
qed

lemma concat_map_dead: "(\<And>x. x \<in> set xs \<Longrightarrow> f x = []) \<Longrightarrow> concat (map f xs) = []"
  by (induction xs) auto

lemma star_space_skip:
  assumes sp: "strictly_spaced s"
    and dead: "\<And>q h. q \<ge> length s \<or> \<not> (is_upper (s ! q) \<or> s ! q = 45) \<Longrightarrow> rmatch r s (q, h) = []"
  shows "rmatch (Cat (Star Space) r) s (p, g) = rmatch r s (p, g)"
proof -
  let ?n = "length (takeWhile (in_cls Space) (drop p s))"
  show ?thesis
  proof (cases "?n = 0")
    case True
    then show ?thesis by (simp add: Let_def)
  next
    case False
    have deadk: "\<And>k. k \<le> ?n \<Longrightarrow> rmatch r s (p + k, g) = []"
    proof -
      fix k assume k: "k \<le> ?n"
      show "rmatch r s (p + k, g) = []"
      proof (cases "k < ?n")
        case True
        from run_positions[OF True] have "is_space (s ! (p + k))" by simp
        then show ?thesis using dead space_not_upper_dash by blast
      next
        case f: False
        then have kn: "k = ?n" using k by simp
        show ?thesis
        proof (cases "p + k < length s")
          case True
          obtain m where m: "?n = Suc m" using False by (cases ?n) auto
          then have "m < ?n" by simp
          from run_positions[OF this] have prev: "is_space (s ! (p + m))" by simp
          have e: "p + k = Suc (p + m)" using kn m by simp
          have "Suc (p + m) < length s" using True e by simp
          from strictly_spacedD(1)[OF sp this prev]
          have "\<not> is_upper (s ! (p + k)) \<and> s ! (p + k) \<noteq> 45" unfolding e .
          then show ?thesis using dead by blast
        next
          case False
          then show ?thesis using dead by simp
        qed
      qed
    qed
    have "rmatch (Cat (Star Space) r) s (p, g) = []"
      unfolding rmatch.simps(3) rmatch_Star
      by (rule concat_map_dead) (auto simp: deadk)
    moreover have "rmatch r s (p, g) = []" using deadk[of 0] by simp
    ultimately show ?thesis by simp
  qed
qed

lemma dash_star_space_skip:
  assumes sp: "strictly_spaced s"
  shows "rmatch (Cat (Chr Dash) (Cat (Star Space) r)) s (i, g) = rmatch (Cat (Chr Dash) r) s (i, g)"
proof (cases "i < length s \<and> s ! i = 45")
  case True
  have "takeWhile (in_cls Space) (drop (Suc i) s) = []"
  proof (cases "Suc i < length s")
    case t: True
    with strictly_spacedD(2)[OF sp t] True have "\<not> is_space (s ! Suc i)" by simp
    moreover have "drop (Suc i) s = s ! Suc i # drop (Suc (Suc i)) s"
      using t by (simp add: Cons_nth_drop_Suc)
    ultimately show ?thesis by simp
  next
    case False
    then show ?thesis by simp
  qed
  then have "rmatch (Star Space) s (Suc i, g) = [(Suc i, g)]"
    by (simp add: Let_def)
  then show ?thesis using True by simp
next
  case False
  then show ?thesis by auto
qed

lemma dead_Chr:
  "q \<ge> length s \<or> \<not> in_cls c (s ! q) \<Longrightarrow> rmatch (Chr c) s (q, h) = []"
  by auto

lemma dead_Repeat:
  "q \<ge> length s \<or> \<not> in_cls c (s ! q) \<Longrightarrow> 0 < lo \<Longrightarrow> rmatch (Repeat c lo hi) s (q, h) = []"
proof -
  assume a: "q \<ge> length s \<or> \<not> in_cls c (s ! q)" and lo: "0 < lo"
  have "takeWhile (in_cls c) (drop q s) = []"
  proof (cases "q < length s")
    case True
    then have "drop q s = s ! q # drop (Suc q) s" by (simp add: Cons_nth_drop_Suc)
    then show ?thesis using a True by simp
  next
    case False
    then show ?thesis by simp
  qed
  then show ?thesis using lo by (simp add: Let_def split: option.splits)
qed

lemma cat_cong2: "rmatch b s = rmatch b' s \<Longrightarrow> rmatch (Cat a b) s = rmatch (Cat a b') s"
  by (rule ext) simp

lemma maybe_cong: "rmatch a s = rmatch a' s \<Longrightarrow> rmatch (Maybe a) s = rmatch (Maybe a') s"
  by (rule ext) simp

lemma page2_patterns_agree:
  assumes sp: "strictly_spaced s"
  shows "rmatch page2_pattern_ws s = rmatch page2_pattern s"
proof -
  let ?C1 = "Capture 1 (Plus Digit)"
  let ?C2 = "Capture 2 (Cat (Chr Upper) (Plus Digit))"
  let ?C3 = "Capture 3 (Cat (Repeat Upper 1 (Some 3)) (Plus Digit))"
  let ?tail = "Cat (Maybe (Cat (Chr Dash) (Plus Digit))) Bound"
  let ?tail_ws = "Cat (Maybe (Cat (Chr Dash) (Cat (Star Space) (Plus Digit)))) Bound"
  have skip_dash: "\<And>r. rmatch (Cat (Chr Dash) (Cat (Star Space) r)) s = rmatch (Cat (Chr Dash) r) s"
  proof (rule ext)
    fix r st show "rmatch (Cat (Chr Dash) (Cat (Star Space) r)) s st = rmatch (Cat (Chr Dash) r) s st"
      by (cases st) (simp only: dash_star_space_skip[OF sp])
  qed
  have skip: "\<And>r. (\<And>q h. q \<ge> length s \<or> \<not> (is_upper (s ! q) \<or> s ! q = 45) \<Longrightarrow> rmatch r s (q, h) = [])
             \<Longrightarrow> rmatch (Cat (Star Space) r) s = rmatch r s"
  proof (rule ext)
    fix r st
    assume "\<And>q h. q \<ge> length s \<or> \<not> (is_upper (s ! q) \<or> s ! q = 45) \<Longrightarrow> rmatch r s (q, h) = []"
    then show "rmatch (Cat (Star Space) r) s st = rmatch r s st"
      by (cases st) (simp only: star_space_skip[OF sp])
  qed
  have t: "rmatch ?tail_ws s = rmatch ?tail s"
    by (rule ext) (simp add: skip_dash del: rmatch.simps(1,4) )
  have t3: "rmatch (Cat ?C3 ?tail_ws) s = rmatch (Cat ?C3 ?tail) s"
    by (rule cat_cong2[OF t])
  have d3: "rmatch (Cat (Chr Dash) (Cat (Star Space) (Cat ?C3 ?tail_ws))) s
          = rmatch (Cat (Chr Dash) (Cat ?C3 ?tail)) s"
    unfolding skip_dash by (rule cat_cong2[OF t3])
  have s2: "rmatch (Cat (Star Space) (Cat (Chr Dash) (Cat (Star Space) (Cat ?C3 ?tail_ws)))) s
          = rmatch (Cat (Chr Dash) (Cat ?C3 ?tail)) s"
  proof -
    have "rmatch (Cat (Star Space) (Cat (Chr Dash) (Cat (Star Space) (Cat ?C3 ?tail_ws)))) s
          = rmatch (Cat (Chr Dash) (Cat (Star Space) (Cat ?C3 ?tail_ws))) s"
      by (rule skip) auto
    then show ?thesis using d3 by simp
  qed
  have c2: "rmatch (Cat ?C2 (Cat (Star Space) (Cat (Chr Dash) (Cat (Star Space) (Cat ?C3 ?tail_ws))))) s
          = rmatch (Cat ?C2 (Cat (Chr Dash) (Cat ?C3 ?tail))) s"
    by (rule cat_cong2[OF s2])
  have s1: "rmatch (Cat (Star Space)
                (Cat ?C2 (Cat (Star Space) (Cat (Chr Dash) (Cat (Star Space) (Cat ?C3 ?tail_ws)))))) s
          = rmatch (Cat ?C2 (Cat (Chr Dash) (Cat ?C3 ?tail))) s"
  proof -
    have "rmatch (Cat (Star Space)
                (Cat ?C2 (Cat (Star Space) (Cat (Chr Dash) (Cat (Star Space) (Cat ?C3 ?tail_ws)))))) s
          = rmatch (Cat ?C2 (Cat (Star Space) (Cat (Chr Dash) (Cat (Star Space) (Cat ?C3 ?tail_ws))))) s"
      by (rule skip) auto
    then show ?thesis using c2 by simp
  qed
  show ?thesis
    unfolding page2_pattern_ws_def page2_pattern_def
    by (intro cat_cong2 s1)
qed

lemma exec_cong: "rmatch r s = rmatch r' s \<Longrightarrow> exec r s i = exec r' s i"
proof -
  assume e: "rmatch r s = rmatch r' s"
  have "\<And>ps. first_match r s ps = first_match r' s ps"
  proof -
    fix ps show "first_match r s ps = first_match r' s ps"
      by (induction ps) (simp_all add: e split: list.splits)
  qed
  then show ?thesis by (simp add: exec_def)
qed

lemma exec_loop_cong:
  assumes e: "rmatch r s = rmatch r' s" and pos: "0 < min_len r"
  shows "exec_loop r mk s i data = exec_loop r' mk s i data"
proof (induction "Suc (length s) - i" arbitrary: i data rule: less_induct)
  case less
  show ?case
  proof (cases "exec r s i")
    case None
    then have "exec r' s i = None" using exec_cong[OF e] by simp
    with None show ?thesis by (simp add: exec_loop.simps)
  next
    case (Some m)
    obtain j g where m: "m = (j, g)" by (cases m)
    from exec_Some[of r s i j g] Some m pos have "i \<le> length s" "i < j" by auto
    then have "Suc (length s) - j < Suc (length s) - i" by arith
    from less[OF this, of "data @ [mk g]"]
    have ih: "exec_loop r mk s j (data @ [mk g]) = exec_loop r' mk s j (data @ [mk g])" .
    have "exec r' s i = Some (j, g)" using Some m exec_cong[OF e] by simp
    then have "exec_loop r' mk s i data = exec_loop r' mk s j (data @ [mk g])"
      by (subst exec_loop.simps) simp
    moreover have "exec_loop r mk s i data = exec_loop r mk s j (data @ [mk g])"
      using Some m by (subst exec_loop.simps) simp
    ultimately show ?thesis using ih by simp
  qed
qed

lemma extractors_agree_strictly_spaced:
  "strictly_spaced text \<Longrightarrow> extractPage2Data_ws text = extractPage2Data text"
  unfolding extractPage2Data_ws_def extractPage2Data_def
  by (rule exec_loop_cong[OF page2_patterns_agree min_len_patterns(3)])

lemma split_ws_nonempty: "split_ws xs \<noteq> []"
  by (induction xs) (auto split: list.splits)

lemma split_ws_at_space:
  "is_space c \<Longrightarrow> split_ws (xs @ c # ys) = split_ws xs @ split_ws ys"
  by (induction xs) (auto simp: split_ws_nonempty split: list.splits)

lemma split_ws_first: "\<not> is_space b \<Longrightarrow> \<exists>l ls. split_ws (b # ys) = (b # l) # ls"
  using split_ws_nonempty[of ys] by (cases "split_ws ys") auto

lemma split_ws_last:
  "\<not> is_space a \<Longrightarrow> \<exists>t \<in> set (split_ws (xs @ [a])). t \<noteq> [] \<and> last t = a"
proof (induction xs)
  case Nil
  then show ?case by simp
next
  case (Cons x xs)
  then obtain t where t: "t \<in> set (split_ws (xs @ [a]))" "t \<noteq> []" "last t = a" by blast
  show ?case
  proof (cases "is_space x")
    case True
    then show ?thesis using t by auto
  next
    case False
    obtain l ls where l: "split_ws (xs @ [a]) = l # ls"
      using split_ws_nonempty[of "xs @ [a]"] by (cases "split_ws (xs @ [a])") auto
    show ?thesis
    proof (cases "t = l")
      case True
      then have "x # l \<in> set (split_ws ((x # xs) @ [a])) \<and> x # l \<noteq> [] \<and> last (x # l) = a"
        using False l t by simp
      then show ?thesis by blast
    next
      case f: False
      then have "t \<in> set ls" using t l by simp
      then have "t \<in> set (split_ws ((x # xs) @ [a]))" using False l by simp
      then show ?thesis using t by blast
    qed
  qed
qed

lemma last_takeWhile_digit: "takeWhile P xs \<noteq> [] \<Longrightarrow> P (last (takeWhile P xs))"
  by (meson last_in_set set_takeWhileD)

lemma strict_token_ends:
  assumes st: "strict_token t"
  shows "t \<noteq> [] \<and> is_digit (hd t) \<and> is_digit (last t)"
proof -
  let ?c = "takeWhile is_digit t" and ?r1 = "dropWhile is_digit t"
  from st have c: "?c \<noteq> []" by (simp add: strict_token_def Let_def)
  then have ne: "t \<noteq> []" by auto
  have "hd t = hd ?c" using c by (cases t) (auto split: if_splits)
  moreover have "hd ?c \<in> set ?c" using c by simp
  ultimately have h: "is_digit (hd t)" by (metis set_takeWhileD)
  from st obtain letter r2 where r1: "?r1 = letter # r2"
    by (cases ?r1) (auto simp: strict_token_def Let_def)
  let ?r3 = "dropWhile is_digit r2"
  from st r1 obtain dash r4 where r3: "?r3 = dash # r4"
    by (cases ?r3) (auto simp: strict_token_def Let_def)
  let ?r5 = "dropWhile is_upper r4"
  let ?digits = "takeWhile is_digit ?r5" and ?suffix = "dropWhile is_digit ?r5"
  from st r1 r3 have d: "?digits \<noteq> []"
    and sfx: "?suffix = [] \<or> (\<exists>number. ?suffix = 45 # number \<and> number \<noteq> [] \<and> list_all is_digit number)"
    by (auto simp: strict_token_def Let_def split: list.splits)
  have r5: "?r5 = ?digits @ ?suffix" by simp
  have "is_digit (last ?r5)"
  proof (cases "?suffix = []")
    case True
    then have "last ?r5 = last ?digits" using r5 by (metis append_Nil2)
    then show ?thesis using last_takeWhile_digit[OF d] by simp
  next
    case False
    with sfx obtain number where n: "?suffix = 45 # number" "number \<noteq> []" "list_all is_digit number"
      by blast
    have "last ?r5 = last ?suffix" using False r5 by (metis last_appendR)
    also have "\<dots> = last number" using n by simp
    finally show ?thesis using n by (simp add: list_all_iff)
  qed
  moreover have r5ne: "?r5 \<noteq> []"
  proof
    assume "?r5 = []"
    then have "?digits = []" by (simp only: takeWhile.simps)
    with d show False by simp
  qed
  moreover have "last r4 = last ?r5"
    using r5ne by (metis last_appendR takeWhile_dropWhile_id)
  moreover have "r4 \<noteq> []" using r5ne by auto
  then have "last ?r3 = last r4" using r3 by simp
  moreover have "?r3 \<noteq> []" using r3 by simp
  then have "last r2 = last ?r3" by (metis last_appendR takeWhile_dropWhile_id)
  moreover have "r2 \<noteq> []" using r3 by auto
  then have "last ?r1 = last r2" using r1 by simp
  moreover have "last t = last ?r1" using r1 by (metis last_appendR list.distinct(1) takeWhile_dropWhile_id)
  ultimately have "is_digit (last t)" by simp
  with ne h show ?thesis by simp
qed

lemma conforms_strict_spaced:
  assumes c: "conforms_strict text"
  shows "strictly_spaced text"
proof -
  have tok: "\<And>t. t \<in> set (split_ws text) \<Longrightarrow> t \<noteq> [] \<Longrightarrow> is_digit (hd t) \<and> is_digit (last t)"
  proof -
    fix t assume "t \<in> set (split_ws text)" "t \<noteq> []"
    then have "t \<in> set (filter (\<lambda>t. t \<noteq> []) (split_ws text))" by simp
    with c have "strict_token t" unfolding conforms_strict_def list_all_iff by blast
    then show "is_digit (hd t) \<and> is_digit (last t)" using strict_token_ends by blast
  qed
  have "\<And>q. q < length (zip text (tl text)) \<Longrightarrow>
          (case zip text (tl text) ! q of (a, b) \<Rightarrow>
             \<not> (is_space a \<and> (is_upper b \<or> b = 45)) \<and> \<not> (a = 45 \<and> is_space b))"
  proof -
    fix q assume "q < length (zip text (tl text))"
    then have q: "Suc q < length text" by simp
    let ?a = "text ! q" and ?b = "text ! Suc q"
    have z: "zip text (tl text) ! q = (?a, ?b)" using q by (simp add: nth_tl)
    have parts: "text = take q text @ ?a # ?b # drop (Suc (Suc q)) text"
      using q by (metis Cons_nth_drop_Suc Suc_lessD append_take_drop_id)
    have 1: "\<not> (is_space ?a \<and> (is_upper ?b \<or> ?b = 45))"
    proof
      assume h: "is_space ?a \<and> (is_upper ?b \<or> ?b = 45)"
      then have nb: "\<not> is_space ?b" using space_not_upper_dash by blast
      from split_ws_first[OF nb, of "drop (Suc (Suc q)) text"] obtain l ls where
        f: "split_ws (?b # drop (Suc (Suc q)) text) = (?b # l) # ls" by blast
      have "split_ws text = split_ws (take q text) @ split_ws (?b # drop (Suc (Suc q)) text)"
        using split_ws_at_space[of ?a "take q text" "?b # drop (Suc (Suc q)) text"] h parts by simp
      then have "?b # l \<in> set (split_ws text)" using f by simp
      from tok[OF this] have "is_digit ?b" by simp
      with h show False by (auto simp: is_digit_def is_upper_def)
    qed
    have 2: "\<not> (?a = 45 \<and> is_space ?b)"
    proof
      assume h: "?a = 45 \<and> is_space ?b"
      then have na: "\<not> is_space ?a" by (auto simp: is_space_def)
      from split_ws_last[OF na, of "take q text"] obtain t where
        t: "t \<in> set (split_ws (take q text @ [?a]))" "t \<noteq> []" "last t = ?a" by blast
      have "text = (take q text @ [?a]) @ ?b # drop (Suc (Suc q)) text" using parts by simp
      then have "split_ws text = split_ws (take q text @ [?a]) @ split_ws (drop (Suc (Suc q)) text)"
        using split_ws_at_space[of ?b "take q text @ [?a]" "drop (Suc (Suc q)) text"] h by simp
      then have "t \<in> set (split_ws text)" using t by simp
      from tok[OF this t(2)] t(3) have "is_digit ?a" by simp
      with h show False by (simp add: is_digit_def)
    qed
    show "case zip text (tl text) ! q of (a, b) \<Rightarrow>
             \<not> (is_space a \<and> (is_upper b \<or> b = 45)) \<and> \<not> (a = 45 \<and> is_space b)"
      unfolding z using 1 2 by simp
  qed
  then show ?thesis unfolding strictly_spaced_def list_all_length by blast
qed

text \<open>
  C7. On every text that conforms to the strict tally grammar the extractor with the
  strict pattern (src/App.jsx) and the extractor with the whitespace-tolerant pattern
  (the second version) return the same sequence of records. The text
  \<^verbatim>\<open>16Y12-A1-200\<close> gives count 16, diameter Y12 and mark A1 under both.
\<close>

theorem strict_and_tolerant_extractors_agree:
  assumes "conforms_strict text"
  shows "extractPage2Data_ws text = extractPage2Data text
       \<and> (\<exists>items. extractPage2Data text = Some items)"
proof -
  have "\<exists>items. extractPage2Data text = Some items"
    unfolding extractPage2Data_def using exec_loop_returns[OF min_len_patterns(2)] by blast
  then show ?thesis
    using extractors_agree_strictly_spaced[OF conforms_strict_spaced[OF assms]] by simp
qed

theorem strict_and_tolerant_extractors_agree_witness:
  "conforms_strict (js ''16Y12-A1-200'')
   \<and> extractPage2Data_ws (js ''16Y12-A1-200'')
       = Some [\<lparr>p2_count = Fin 16, p2_diameter = js ''Y12'', p2_mark = js ''A1''\<rparr>]
   \<and> extractPage2Data (js ''16Y12-A1-200'')
       = Some [\<lparr>p2_count = Fin 16, p2_diameter = js ''Y12'', p2_mark = js ''A1''\<rparr>]"
proof -
  have c: "conforms_strict (js ''16Y12-A1-200'')"
    by (simp add: conforms_strict_def strict_token_def js_def is_space_def is_digit_def is_upper_def)
  have e: "extractPage2Data (js ''16Y12-A1-200'')
             = Some [\<lparr>p2_count = Fin 16, p2_diameter = js ''Y12'', p2_mark = js ''A1''\<rparr>]"
    by (simp add: extractPage2Data_def page2_pattern_def run_extract)
  show ?thesis
    using strict_and_tolerant_extractors_agree [OF c] c e by simp
qed

text \<open>Several strict tokens on two lines; and a text outside the strict grammar, on
  which the two extractors differ.\<close>

lemma strict_lines_example:
  "conforms_strict (js ''16Y12-A1-200 15R10-CL1-600'' @ 10 # js ''2Y16-LS1'')
   \<and> extractPage2Data (js ''16Y12-A1-200 15R10-CL1-600'' @ 10 # js ''2Y16-LS1'')
       = Some [\<lparr>p2_count = Fin 16, p2_diameter = js ''Y12'', p2_mark = js ''A1''\<rparr>,
               \<lparr>p2_count = Fin 15, p2_diameter = js ''R10'', p2_mark = js ''CL1''\<rparr>,
               \<lparr>p2_count = Fin 2, p2_diameter = js ''Y16'', p2_mark = js ''LS1''\<rparr>]
   \<and> \<not> conforms_strict (js ''15 R10 - CL1 - 600'')
   \<and> extractPage2Data (js ''15 R10 - CL1 - 600'') = Some []
   \<and> extractPage2Data_ws (js ''15 R10 - CL1 - 600'')
       = Some [\<lparr>p2_count = Fin 15, p2_diameter = js ''R10'', p2_mark = js ''CL1''\<rparr>]"
  by (simp add: conforms_strict_def strict_token_def extractPage2Data_def extractPage2Data_ws_def
        page2_pattern_def page2_pattern_ws_def run_extract)

section \<open>What the extractors capture\<close>

text \<open>
  Every match of one of the three patterns defines its three groups, and the third is
  a bar mark. So the default of \<^verbatim>\<open>match_group\<close> is never used, the marks that key the
  dictionaries never name an inherited property, and every row that \<^verbatim>\<open>handleCompare\<close>
  produces has a bar mark as its mark, which is what the statement about the mismatch
  report asks of the rows.
\<close>

lemma rmatch_keeps:
  "(j, g') \<in> set (rmatch r s (i, g)) \<Longrightarrow> k \<notin> caps_of r \<Longrightarrow> g' k = g k"
proof (induction r arbitrary: i g j g')
  case (Cat a b)
  from Cat.prems obtain m h where
    1: "(m, h) \<in> set (rmatch a s (i, g))" and 2: "(j, g') \<in> set (rmatch b s (m, h))"
    by auto
  from Cat.IH(1)[OF 1] Cat.IH(2)[OF 2] Cat.prems(2) show ?case by simp
next
  case (Maybe r)
  then show ?case by fastforce
next
  case (Capture n r)
  then show ?case by fastforce
qed (auto simp: Let_def split: if_splits)

lemma CatE:
  assumes "st' \<in> set (rmatch (Cat a b) s st)"
  obtains mid where "mid \<in> set (rmatch a s st)" "st' \<in> set (rmatch b s mid)"
  using assms by auto

lemma rmatch_Repeat_run:
  assumes "(j, g') \<in> set (rmatch (Repeat c lo hi) s (i, g))"
  shows "g' = g \<and> i + lo \<le> j \<and> (\<forall>h. hi = Some h \<longrightarrow> j \<le> i + h)
         \<and> (i \<le> length s \<longrightarrow> j \<le> length s)
         \<and> (\<forall>q. i \<le> q \<and> q < j \<longrightarrow> q < length s \<and> in_cls c (s ! q))"
proof -
  let ?n = "length (takeWhile (in_cls c) (drop i s))"
  from assms obtain k where k: "j = i + k" "g' = g" "lo \<le> k" "k \<le> ?n" "\<forall>h. hi = Some h \<longrightarrow> k \<le> h"
    by (auto simp: Let_def split: option.splits)
  have "\<And>q. i \<le> q \<Longrightarrow> q < j \<Longrightarrow> q < length s \<and> in_cls c (s ! q)"
  proof -
    fix q assume "i \<le> q" "q < j"
    then have "q - i < ?n" using k by simp
    from run_positions[OF this] \<open>i \<le> q\<close> show "q < length s \<and> in_cls c (s ! q)" by simp
  qed
  moreover have "i \<le> length s \<longrightarrow> j \<le> length s"
  proof
    assume "i \<le> length s"
    moreover have "?n \<le> length (drop i s)" by (rule length_takeWhile_le)
    ultimately show "j \<le> length s" using k by simp
  qed
  ultimately show ?thesis using k by auto
qed

lemma slice_all:
  assumes "\<forall>q. i \<le> q \<and> q < j \<longrightarrow> q < length s \<and> P (s ! q)"
  shows "list_all P (take (j - i) (drop i s))"
proof -
  have "\<And>x. x \<in> set (take (j - i) (drop i s)) \<Longrightarrow> P x"
  proof -
    fix x assume "x \<in> set (take (j - i) (drop i s))"
    then obtain n where n: "n < length (take (j - i) (drop i s))" "x = take (j - i) (drop i s) ! n"
      by (metis in_set_conv_nth)
    then have "n < j - i" "i + n < length s" by auto
    then have "x = s ! (i + n)" using n by simp
    moreover have "i \<le> i + n \<and> i + n < j" using \<open>n < j - i\<close> by simp
    ultimately show "P x" using assms by blast
  qed
  then show ?thesis by (simp add: list_all_iff)
qed

lemma slice_split:
  assumes "i \<le> m" "m \<le> j"
  shows "take (j - i) (drop i s) = take (m - i) (drop i s) @ take (j - m) (drop m s)"
proof -
  have "j - i = (m - i) + (j - m)" using assms by simp
  then have "take (j - i) (drop i s) = take (m - i) (drop i s) @ take (j - m) (drop (m - i) (drop i s))"
    by (simp only: take_add)
  then show ?thesis using assms by simp
qed

lemma mark_shape:
  assumes "(j, g') \<in> set (rmatch (Cat (Repeat Upper 1 (Some 3)) (Plus Digit)) s (i, g))"
  shows "mark_token (take (j - i) (drop i s))"
proof -
  from assms obtain m h where
    1: "(m, h) \<in> set (rmatch (Repeat Upper 1 (Some 3)) s (i, g))" and
    2: "(j, g') \<in> set (rmatch (Plus Digit) s (m, h))"
    by (elim CatE) auto
  from rmatch_Repeat_run[OF 1] have
    u: "i + 1 \<le> m" "m \<le> i + 3" "\<forall>q. i \<le> q \<and> q < m \<longrightarrow> q < length s \<and> is_upper (s ! q)"
    by auto
  from rmatch_Repeat_run[OF 2] have
    d: "m + 1 \<le> j" "\<forall>q. m \<le> q \<and> q < j \<longrightarrow> q < length s \<and> is_digit (s ! q)"
    by auto
  let ?us = "take (m - i) (drop i s)" and ?ds = "take (j - m) (drop m s)"
  have t: "take (j - i) (drop i s) = ?us @ ?ds"
    using u d by (intro slice_split) auto
  have us: "list_all is_upper ?us" using slice_all[of i m s is_upper] u by simp
  have ds: "list_all is_digit ?ds" using slice_all[of m j s is_digit] d by simp
  have "m \<le> j - 1 \<and> j - 1 < j" using d(1) by simp
  then have "j - 1 < length s" using d(2) by blast
  then have jl: "j \<le> length s" by simp
  have lus: "length ?us = m - i" using u d jl by simp
  have lds: "length ?ds = j - m" using d jl by simp
  have dne: "?ds \<noteq> []" using lds d by auto
  then obtain x xs where x: "?ds = x # xs" by (cases ?ds) auto
  then have "is_digit x" using ds by simp
  then have nx: "\<not> is_upper x" by (auto simp: is_digit_def is_upper_def)
  have tw: "takeWhile is_upper (?us @ ?ds) = ?us"
    using us nx x by (simp add: list_all_iff takeWhile_append2)
  have dw: "dropWhile is_upper (?us @ ?ds) = ?ds"
    using us nx x by (simp add: list_all_iff dropWhile_append2)
  have len: "1 \<le> length ?us \<and> length ?us \<le> 3"
    unfolding lus using u(1,2) by arith
  show ?thesis
    unfolding mark_token_def t Let_def tw dw using len dne ds by blast
qed

lemma capture_mark:
  assumes "(j, g') \<in> set (rmatch (Capture k (Cat (Repeat Upper 1 (Some 3)) (Plus Digit))) s (i, g))"
  shows "\<exists>t. g' k = Some t \<and> mark_token t"
proof -
  from assms obtain h where h: "(j, h) \<in> set (rmatch (Cat (Repeat Upper 1 (Some 3)) (Plus Digit)) s (i, g))"
    and g': "g' = h(k \<mapsto> take (j - i) (drop i s))"
    by auto
  from mark_shape[OF h] g' show ?thesis by simp
qed

lemma keeps:
  "st' \<in> set (rmatch r s st) \<Longrightarrow> k \<notin> caps_of r \<Longrightarrow> snd st' k = snd st k"
  using rmatch_keeps[of "fst st'" "snd st'" r s "fst st" "snd st" k] by simp

lemma capture_defined:
  "st' \<in> set (rmatch (Capture k r) s st) \<Longrightarrow> snd st' k \<noteq> None"
  by (cases st) auto

lemma capture_mark':
  "st' \<in> set (rmatch (Capture k (Cat (Repeat Upper 1 (Some 3)) (Plus Digit))) s st)
   \<Longrightarrow> \<exists>t. snd st' k = Some t \<and> mark_token t"
  using capture_mark[of "fst st'" "snd st'" k s "fst st" "snd st"] by simp

lemma page1_pattern_groups:
  assumes "st' \<in> set (rmatch page1_pattern s st)"
  shows "snd st' 1 \<noteq> None \<and> snd st' 2 \<noteq> None \<and> (\<exists>t. snd st' 3 = Some t \<and> mark_token t)"
proof -
  from assms obtain m0 m1 m2 m3 m4 m5 m6 m7 m8 m9 where
    c1: "m1 \<in> set (rmatch (Capture 1 (Plus Digit)) s m0)" and
    r2: "m2 \<in> set (rmatch (Plus Space) s m1)" and
    c2: "m3 \<in> set (rmatch (Capture 2 (Cat (Chr Upper) (Plus Digit))) s m2)" and
    r4: "m4 \<in> set (rmatch (Plus Space) s m3)" and
    r5: "m5 \<in> set (rmatch (Plus Digit) s m4)" and
    r6: "m6 \<in> set (rmatch (Plus Space) s m5)" and
    r7: "m7 \<in> set (rmatch (Plus Digit) s m6)" and
    r8: "m8 \<in> set (rmatch (Plus Space) s m7)" and
    c3: "m9 \<in> set (rmatch (Capture 3 (Cat (Repeat Upper 1 (Some 3)) (Plus Digit))) s m8)" and
    b: "st' \<in> set (rmatch Bound s m9)"
    unfolding page1_pattern_def by (elim CatE) blast
  have "snd st' 1 = snd m1 1"
    using keeps[OF b, of 1] keeps[OF c3, of 1] keeps[OF r8, of 1] keeps[OF r7, of 1]
      keeps[OF r6, of 1] keeps[OF r5, of 1] keeps[OF r4, of 1] keeps[OF c2, of 1] keeps[OF r2, of 1]
    by simp
  moreover have "snd st' 2 = snd m3 2"
    using keeps[OF b, of 2] keeps[OF c3, of 2] keeps[OF r8, of 2] keeps[OF r7, of 2]
      keeps[OF r6, of 2] keeps[OF r5, of 2] keeps[OF r4, of 2]
    by simp
  moreover have "snd st' 3 = snd m9 3"
    using keeps[OF b, of 3] by simp
  ultimately show ?thesis
    using capture_defined[OF c1] capture_defined[OF c2] capture_mark'[OF c3] by simp
qed

lemma page2_pattern_groups:
  assumes "st' \<in> set (rmatch page2_pattern s st)"
  shows "snd st' 1 \<noteq> None \<and> snd st' 2 \<noteq> None \<and> (\<exists>t. snd st' 3 = Some t \<and> mark_token t)"
proof -
  from assms obtain m0 m1 m2 m3 m4 m5 where
    c1: "m1 \<in> set (rmatch (Capture 1 (Plus Digit)) s m0)" and
    c2: "m2 \<in> set (rmatch (Capture 2 (Cat (Chr Upper) (Plus Digit))) s m1)" and
    r3: "m3 \<in> set (rmatch (Chr Dash) s m2)" and
    c3: "m4 \<in> set (rmatch (Capture 3 (Cat (Repeat Upper 1 (Some 3)) (Plus Digit))) s m3)" and
    r5: "m5 \<in> set (rmatch (Maybe (Cat (Chr Dash) (Plus Digit))) s m4)" and
    b: "st' \<in> set (rmatch Bound s m5)"
    unfolding page2_pattern_def by (elim CatE) blast
  have "snd st' 1 = snd m1 1"
    using keeps[OF b, of 1] keeps[OF r5, of 1] keeps[OF c3, of 1] keeps[OF r3, of 1] keeps[OF c2, of 1]
    by simp
  moreover have "snd st' 2 = snd m2 2"
    using keeps[OF b, of 2] keeps[OF r5, of 2] keeps[OF c3, of 2] keeps[OF r3, of 2]
    by simp
  moreover have "snd st' 3 = snd m4 3"
    using keeps[OF b, of 3] keeps[OF r5, of 3] by simp
  ultimately show ?thesis
    using capture_defined[OF c1] capture_defined[OF c2] capture_mark'[OF c3] by simp
qed

lemma page2_pattern_ws_groups:
  assumes "st' \<in> set (rmatch page2_pattern_ws s st)"
  shows "snd st' 1 \<noteq> None \<and> snd st' 2 \<noteq> None \<and> (\<exists>t. snd st' 3 = Some t \<and> mark_token t)"
proof -
  from assms obtain m0 m1 m2 m3 m4 m5 m6 m7 m8 where
    c1: "m1 \<in> set (rmatch (Capture 1 (Plus Digit)) s m0)" and
    r2: "m2 \<in> set (rmatch (Star Space) s m1)" and
    c2: "m3 \<in> set (rmatch (Capture 2 (Cat (Chr Upper) (Plus Digit))) s m2)" and
    r4: "m4 \<in> set (rmatch (Star Space) s m3)" and
    r5: "m5 \<in> set (rmatch (Chr Dash) s m4)" and
    r6: "m6 \<in> set (rmatch (Star Space) s m5)" and
    c3: "m7 \<in> set (rmatch (Capture 3 (Cat (Repeat Upper 1 (Some 3)) (Plus Digit))) s m6)" and
    r8: "m8 \<in> set (rmatch (Maybe (Cat (Chr Dash) (Cat (Star Space) (Plus Digit)))) s m7)" and
    b: "st' \<in> set (rmatch Bound s m8)"
    unfolding page2_pattern_ws_def by (elim CatE) blast
  have "snd st' 1 = snd m1 1"
    using keeps[OF b, of 1] keeps[OF r8, of 1] keeps[OF c3, of 1] keeps[OF r6, of 1]
      keeps[OF r5, of 1] keeps[OF r4, of 1] keeps[OF c2, of 1] keeps[OF r2, of 1]
    by simp
  moreover have "snd st' 2 = snd m3 2"
    using keeps[OF b, of 2] keeps[OF r8, of 2] keeps[OF c3, of 2] keeps[OF r6, of 2]
      keeps[OF r5, of 2] keeps[OF r4, of 2]
    by simp
  moreover have "snd st' 3 = snd m7 3"
    using keeps[OF b, of 3] keeps[OF r8, of 3] by simp
  ultimately show ?thesis
    using capture_defined[OF c1] capture_defined[OF c2] capture_mark'[OF c3] by simp
qed

lemma exec_loop_all:
  assumes pos: "0 < min_len r"
    and step: "\<And>st st'. st' \<in> set (rmatch r s st) \<Longrightarrow> P (mk (snd st'))"
  shows "exec_loop r mk s i data = Some out \<Longrightarrow> \<forall>x \<in> set data. P x \<Longrightarrow> \<forall>x \<in> set out. P x"
proof (induction "Suc (length s) - i" arbitrary: i data rule: less_induct)
  case less
  show ?case
  proof (cases "exec r s i")
    case None
    then have "exec_loop r mk s i data = Some data" by (subst exec_loop.simps) simp
    with less.prems show ?thesis by simp
  next
    case (Some m)
    obtain j g where m: "m = (j, g)" by (cases m)
    from exec_Some[of r s i j g] Some m pos have "i \<le> length s" "i < j" by auto
    then have lt: "Suc (length s) - j < Suc (length s) - i" by arith
    from Some m obtain p where "(j, g) \<in> set (rmatch r s (p, Map.empty))"
      unfolding exec_def by (blast dest: first_match_Some)
    from step[OF this] have "P (mk g)" by simp
    then have d: "\<forall>x \<in> set (data @ [mk g]). P x" using less.prems(2) by simp
    have "exec_loop r mk s i data = exec_loop r mk s j (data @ [mk g])"
      using Some m by (subst exec_loop.simps) simp
    then have "exec_loop r mk s j (data @ [mk g]) = Some out" using less.prems(1) by simp
    from less.hyps[OF lt this d] show ?thesis .
  qed
qed

lemma extracted_marks:
  "extractPage1Data text = Some items1 \<Longrightarrow> \<forall>item \<in> set items1. mark_token (p1_mark item)"
  "extractPage2Data text = Some items2 \<Longrightarrow> \<forall>item \<in> set items2. mark_token (p2_mark item)"
  "extractPage2Data_ws text = Some items2 \<Longrightarrow> \<forall>item \<in> set items2. mark_token (p2_mark item)"
proof -
  show "extractPage1Data text = Some items1 \<Longrightarrow> \<forall>item \<in> set items1. mark_token (p1_mark item)"
    unfolding extractPage1Data_def
  proof (erule exec_loop_all[OF min_len_patterns(1), rotated])
    fix st st' :: mstate assume "st' \<in> set (rmatch page1_pattern text st)"
    from page1_pattern_groups[OF this] obtain t where "snd st' 3 = Some t" "mark_token t" by blast
    then show "mark_token (p1_mark (page1_push (snd st')))"
      by (simp add: page1_push_def match_group_def)
  qed simp
  show "extractPage2Data text = Some items2 \<Longrightarrow> \<forall>item \<in> set items2. mark_token (p2_mark item)"
    unfolding extractPage2Data_def
  proof (erule exec_loop_all[OF min_len_patterns(2), rotated])
    fix st st' :: mstate assume "st' \<in> set (rmatch page2_pattern text st)"
    from page2_pattern_groups[OF this] obtain t where "snd st' 3 = Some t" "mark_token t" by blast
    then show "mark_token (p2_mark (page2_push (snd st')))"
      by (simp add: page2_push_def match_group_def)
  qed simp
  show "extractPage2Data_ws text = Some items2 \<Longrightarrow> \<forall>item \<in> set items2. mark_token (p2_mark item)"
    unfolding extractPage2Data_ws_def
  proof (erule exec_loop_all[OF min_len_patterns(3), rotated])
    fix st st' :: mstate assume "st' \<in> set (rmatch page2_pattern_ws text st)"
    from page2_pattern_ws_groups[OF this] obtain t where "snd st' 3 = Some t" "mark_token t" by blast
    then show "mark_token (p2_mark (page2_push (snd st')))"
      by (simp add: page2_push_def match_group_def)
  qed simp
qed

lemma handleCompare_marks:
  "handleCompare cmp st = Some (Inr st') \<Longrightarrow> \<forall>row \<in> set (results st'). mark_token (mark row)"
  "handleCompare_sv cmp sv = Some (Inr sv') \<Longrightarrow> \<forall>row \<in> set (results sv'). mark_token (mark row)"
proof -
  assume h: "handleCompare cmp st = Some (Inr st')"
  then obtain a b where a: "extractPage1Data (text1 st) = Some a"
    and b: "extractPage2Data (text2 st) = Some b"
    by (auto simp: handleCompare_def split: Option.bind_splits)
  obtain g where g: "page2Grouped b = Inr g" using page2Grouped_returns by blast
  from h a b have "results st' = sort_rows cmp (map (make_row (sectionAndLayout st) g) a)"
    by (auto simp: handleCompare_def compare_rows_Inr[OF g])
  then show "\<forall>row \<in> set (results st'). mark_token (mark row)"
    using extracted_marks(1)[OF a] by (auto simp: set_sort_rows make_row_fields)
next
  assume h: "handleCompare_sv cmp sv = Some (Inr sv')"
  then obtain a b where a: "extractPage1Data (text1 sv) = Some a"
    and b: "extractPage2Data_ws (text2 sv) = Some b"
    by (auto simp: handleCompare_sv_def split: Option.bind_splits)
  obtain g where g: "page2Grouped b = Inr g" using page2Grouped_returns by blast
  from h a b have "results sv' = sort_rows cmp
      (map (make_srow (inSectionRows sv) (sectionAndLayout sv) g) a)"
    by (auto simp: handleCompare_sv_def compare_srows_Inr[OF g])
  then show "\<forall>row \<in> set (results sv'). mark_token (mark row)"
    using extracted_marks(1)[OF a] by (auto simp: set_sort_rows make_srow_fields)
qed

lemma toggleInSection_marks:
  "map mark (results (toggleInSection st m)) = map mark (results st)"
  by (simp add: toggleInSection_fields toggled_row_fields comp_def)


end
